theory Spec2Isabelle
  imports Main "HOL-Library.Log_Nat"
begin

section \<open>Text: characters, case, whitespace\<close>

text \<open>
  The program is \<^verbatim>\<open>app.py\<close>, a Flask service. Its texts are Python \<^verbatim>\<open>str\<close> values; the
  model uses \<^typ>\<open>string\<close>, so a character is one of the code points 0 to 255 and code
  points above 255 are outside the model.

  \<^verbatim>\<open>str.isspace\<close>, \<^verbatim>\<open>str.strip()\<close> and the regular expression class \<^verbatim>\<open>\s\<close> share one
  notion of whitespace; below 256 it is the twelve characters listed here.
\<close>

definition isspace :: "char \<Rightarrow> bool" where
  "isspace c \<longleftrightarrow> c \<in> set [CHR 0x09, CHR 0x0A, CHR 0x0B, CHR 0x0C, CHR 0x0D,
     CHR 0x1C, CHR 0x1D, CHR 0x1E, CHR 0x1F, CHR 0x20, CHR 0x85, CHR 0xA0]"

text \<open>The class \<^verbatim>\<open>\d\<close>: below 256 the decimal digits are the ten ASCII digits.\<close>

definition isdigit :: "char \<Rightarrow> bool" where
  "isdigit c \<longleftrightarrow> c \<in> set ''0123456789''"

text \<open>
  \<^verbatim>\<open>str.lower()\<close> on one character: the ASCII capitals, and the Latin-1 capitals
  0xC0 to 0xDE without the multiplication sign 0xD7, move up by 32.
\<close>

definition lower_char :: "char \<Rightarrow> char" where
  "lower_char c =
     (let n = (of_char c :: nat)
      in if (65 \<le> n \<and> n \<le> 90) \<or> (192 \<le> n \<and> n \<le> 222 \<and> n \<noteq> 215)
         then char_of (n + 32) else c)"

definition lower :: "string \<Rightarrow> string" where
  "lower s = map lower_char s"

text \<open>\<^verbatim>\<open>s.strip()\<close>: whitespace is removed at both ends.\<close>

definition lstrip :: "string \<Rightarrow> string" where
  "lstrip s = dropWhile isspace s"

definition rstrip :: "string \<Rightarrow> string" where
  "rstrip s = rev (dropWhile isspace (rev s))"

definition strip :: "string \<Rightarrow> string" where
  "strip s = rstrip (lstrip s)"

text \<open>\<^verbatim>\<open>s.startswith(p)\<close> and the substring test \<^verbatim>\<open>p in s\<close>.\<close>

definition startswith :: "string \<Rightarrow> string \<Rightarrow> bool" where
  "startswith s p \<longleftrightarrow> take (length p) s = p"

fun contains :: "string \<Rightarrow> string \<Rightarrow> bool" where
  "contains [] p = (p = [])"
| "contains (c # s) p = (startswith (c # s) p \<or> contains s p)"


section \<open>Regular expressions: the fragment of \<^verbatim>\<open>re\<close> the program uses\<close>

text \<open>
  The five patterns of \<^verbatim>\<open>app.py\<close> are built from literal characters, the classes
  \<^verbatim>\<open>\s\<close>, \<^verbatim>\<open>\S\<close>, \<^verbatim>\<open>\d\<close>, \<^verbatim>\<open>[^}]\<close> and \<^verbatim>\<open>[\s\S]\<close>, the greedy quantifiers \<^verbatim>\<open>*\<close> and \<^verbatim>\<open>+\<close> on
  a class, a greedy optional group, one capturing group, and the anchors \<^verbatim>\<open>^\<close> and
  \<^verbatim>\<open>$\<close>. Matching is Python's: backtracking, alternatives tried in priority order.
\<close>

datatype cls = Lit char | Space | NonSpace | Digit | NotLit char | Either cls cls

datatype rx =
    Eps
  | Atom cls
  | Seq rx rx
  | Star cls
  | Plus cls
  | Opt rx
  | Grp rx
  | Bos
  | Eos

text \<open>The first argument is the flag \<^verbatim>\<open>re.IGNORECASE\<close>.\<close>

fun cls_match :: "bool \<Rightarrow> cls \<Rightarrow> char \<Rightarrow> bool" where
  "cls_match ic (Lit c) x = (if ic then lower_char x = lower_char c else x = c)"
| "cls_match ic Space x = isspace x"
| "cls_match ic NonSpace x = (\<not> isspace x)"
| "cls_match ic Digit x = isdigit x"
| "cls_match ic (NotLit c) x = (\<not> (if ic then lower_char x = lower_char c else x = c))"
| "cls_match ic (Either a b) x = (cls_match ic a x \<or> cls_match ic b x)"

text \<open>
  A greedy repetition of a class offers the rest of the input after the longest run
  first, then after each shorter run, down to the empty run.
\<close>

fun greedy :: "(char \<Rightarrow> bool) \<Rightarrow> string \<Rightarrow> string list" where
  "greedy p [] = [[]]"
| "greedy p (x # xs) = (if p x then greedy p xs @ [x # xs] else [x # xs])"

fun greedy1 :: "(char \<Rightarrow> bool) \<Rightarrow> string \<Rightarrow> string list" where
  "greedy1 p [] = []"
| "greedy1 p (x # xs) = (if p x then greedy p xs else [])"

text \<open>
  A matcher state is the text captured by group 1 so far (if any) and the input that
  remains. \<open>ms ic n r st\<close> lists, in the order in which the backtracking matcher
  reaches them, the states in which \<open>r\<close> can end when started in \<open>st\<close>; the matcher's
  answer is the head of the list, and the empty list is failure. \<open>n\<close> is the length of
  the whole subject, by which \<^verbatim>\<open>^\<close> recognises position 0. \<^verbatim>\<open>$\<close> holds at the end and
  just before a newline that ends the subject.
\<close>

type_synonym mstate = "string option \<times> string"

fun ms :: "bool \<Rightarrow> nat \<Rightarrow> rx \<Rightarrow> mstate \<Rightarrow> mstate list" where
  "ms ic n Eps st = [st]"
| "ms ic n (Atom c) (cap, s) =
     (case s of [] \<Rightarrow> [] | x # xs \<Rightarrow> if cls_match ic c x then [(cap, xs)] else [])"
| "ms ic n (Seq a b) st = concat (map (ms ic n b) (ms ic n a st))"
| "ms ic n (Star c) (cap, s) = map (Pair cap) (greedy (cls_match ic c) s)"
| "ms ic n (Plus c) (cap, s) = map (Pair cap) (greedy1 (cls_match ic c) s)"
| "ms ic n (Opt a) st = ms ic n a st @ [st]"
| "ms ic n (Grp a) (cap, s) =
     map (\<lambda>(cap', s'). (Some (take (length s - length s') s), s')) (ms ic n a (cap, s))"
| "ms ic n Bos (cap, s) = (if length s = n then [(cap, s)] else [])"
| "ms ic n Eos (cap, s) = (if s = [] \<or> s = [CHR 0x0A] then [(cap, s)] else [])"

text \<open>A literal string in a pattern is the sequence of its characters.\<close>

definition lits :: "string \<Rightarrow> rx" where
  "lits s = foldr (\<lambda>c r. Seq (Atom (Lit c)) r) s Eps"

text \<open>Whether the text begins with the literal, as the matcher compares characters.\<close>

fun lit_prefix :: "bool \<Rightarrow> string \<Rightarrow> string \<Rightarrow> bool" where
  "lit_prefix ic [] s = True"
| "lit_prefix ic (c # l) [] = False"
| "lit_prefix ic (c # l) (x # s) = (cls_match ic (Lit c) x \<and> lit_prefix ic l s)"

text \<open>
  A match object: where the match starts, \<^verbatim>\<open>group(0)\<close> and \<^verbatim>\<open>group(1)\<close>.
\<close>

record rmatch =
  start :: nat
  group0 :: string
  group1 :: "string option"

text \<open>
  \<^verbatim>\<open>re.search\<close>: the start positions are tried from left to right, the end of the subject
  included; the first position at which the pattern matches gives the result.
\<close>

fun search_from :: "bool \<Rightarrow> nat \<Rightarrow> rx \<Rightarrow> nat \<Rightarrow> string \<Rightarrow> rmatch option" where
  "search_from ic n r i s =
     (case ms ic n r (None, s) of
        (cap, s') # _ \<Rightarrow>
          Some \<lparr>start = i, group0 = take (length s - length s') s, group1 = cap\<rparr>
      | [] \<Rightarrow> (case s of [] \<Rightarrow> None | _ # xs \<Rightarrow> search_from ic n r (Suc i) xs))"

declare search_from.simps [simp del]

definition re_search :: "bool \<Rightarrow> rx \<Rightarrow> string \<Rightarrow> rmatch option" where
  "re_search ic r t = search_from ic (length t) r 0 t"

text \<open>
  \<^verbatim>\<open>re.sub(pattern, '', t)\<close>: every match, found from left to right without overlap, is
  deleted. Both patterns the program substitutes contain three literal backquotes, so a
  match is never empty; at an empty match this model copies a character and goes on.
\<close>

function sub_from :: "bool \<Rightarrow> nat \<Rightarrow> rx \<Rightarrow> string \<Rightarrow> string" where
  "sub_from ic n r s =
     (case ms ic n r (None, s) of
        (cap, s') # _ \<Rightarrow>
          if length s' < length s then sub_from ic n r s'
          else (case s of [] \<Rightarrow> [] | x # xs \<Rightarrow> x # sub_from ic n r xs)
      | [] \<Rightarrow> (case s of [] \<Rightarrow> [] | x # xs \<Rightarrow> x # sub_from ic n r xs))"
  by pat_completeness auto
termination
  by (relation "measure (\<lambda>(ic, n, r, s). length s)") auto

declare sub_from.simps [simp del]

definition re_sub_empty :: "bool \<Rightarrow> rx \<Rightarrow> string \<Rightarrow> string" where
  "re_sub_empty ic r t = sub_from ic (length t) r t"


section \<open>The patterns of \<^verbatim>\<open>app.py\<close>\<close>

text \<open>
  \<^verbatim>\<open>r"^```(?:json)?\s*"\<close> (used with \<^verbatim>\<open>re.IGNORECASE\<close>) and \<^verbatim>\<open>r"\s*```$"\<close>, the code
  fences; \<^verbatim>\<open>r"\{[\s\S]*\}"\<close>, the brace span.
\<close>

definition fence_open_rx :: rx where
  "fence_open_rx = Seq Bos (Seq (lits ''```'') (Seq (Opt (lits ''json'')) (Star Space)))"

definition fence_close_rx :: rx where
  "fence_close_rx = Seq (Star Space) (Seq (lits ''```'') Eos)"

definition brace_rx :: rx where
  "brace_rx =
     Seq (Atom (Lit (CHR ''{''))) (Seq (Star (Either Space NonSpace)) (Atom (Lit (CHR ''}''))))"

text \<open>
  \<^verbatim>\<open>r'Please retry in\s*(\d+(?:\.\d+)?)s'\<close> (used with \<^verbatim>\<open>re.IGNORECASE\<close>) and
  \<^verbatim>\<open>r'retry_delay\s*\{[^}]*seconds:\s*(\d+)'\<close>, the two retry hints.
\<close>

definition retry_in_rx :: rx where
  "retry_in_rx =
     Seq (lits ''Please retry in'')
       (Seq (Star Space)
         (Seq (Grp (Seq (Plus Digit) (Opt (Seq (Atom (Lit (CHR ''.''))) (Plus Digit)))))
           (Atom (Lit (CHR ''s'')))))"

definition retry_delay_rx :: rx where
  "retry_delay_rx =
     Seq (lits ''retry_delay'')
       (Seq (Star Space)
         (Seq (Atom (Lit (CHR ''{'')))
           (Seq (Star (NotLit (CHR ''}'')))
             (Seq (lits ''seconds:'') (Seq (Star Space) (Grp (Plus Digit)))))))"


section \<open>Numbers: \<^verbatim>\<open>float\<close>, \<^verbatim>\<open>math.ceil\<close>, \<^verbatim>\<open>str\<close> of an integer\<close>

text \<open>
  A Python float is a binary64 value. Only non-negative ones occur here: \<open>Finite m e\<close>
  is the double \<open>m * 2 ^ e\<close>, and \<open>Infinity\<close> is \<^verbatim>\<open>inf\<close>.
\<close>

datatype pyfloat = Finite int int | Infinity



text \<open>The quotient \<open>a / d\<close> rounded to the nearest integer, a tie to the even one.\<close>

definition round_half_even :: "int \<Rightarrow> int \<Rightarrow> int" where
  "round_half_even a d =
     (let f = a div d; r = a mod d
      in if 2 * r < d then f else if d < 2 * r then f + 1 else if even f then f else f + 1)"

text \<open>
  \<^verbatim>\<open>float(text)\<close> is correctly rounded: it returns the double nearest to the decimal number
  written, ties to the even mantissa, and infinity from \<open>2 ^ 1024\<close> on. \<open>binary64 a d\<close>
  is the double nearest to the fraction \<open>a / d\<close> (\<open>a\<close> not negative, \<open>d\<close> positive): \<open>e\<close>
  is the binary exponent of the fraction, \<open>2 ^ q\<close> the distance between neighbouring
  doubles there (the subnormal distance below \<open>2 ^ -1022\<close>), \<open>m\<close> the rounded mantissa.
\<close>

definition binary64 :: "int \<Rightarrow> int \<Rightarrow> pyfloat" where
  "binary64 a d =
     (if a = 0 then Finite 0 0
      else
        let e0 = bitlen a - bitlen d;
            e = (if (if 0 \<le> e0 then 2 ^ nat e0 * d \<le> a else d \<le> 2 ^ nat (- e0) * a)
                 then e0 else e0 - 1);
            q = max e (- 1022) - 52;
            m = (if 0 \<le> q then round_half_even a (d * 2 ^ nat q)
                 else round_half_even (a * 2 ^ nat (- q)) d)
        in if 0 \<le> q then (if 2 ^ 1024 \<le> m * 2 ^ nat q then Infinity else Finite m q)
           else Finite m q)"

definition digit_val :: "char \<Rightarrow> int" where
  "digit_val c = of_char c - 48"

definition digits_val :: "string \<Rightarrow> int" where
  "digits_val ds = foldl (\<lambda>a c. 10 * a + digit_val c) 0 ds"

text \<open>
  \<^verbatim>\<open>float(g)\<close> for a text \<open>g\<close> of the form matched by \<^verbatim>\<open>\d+(?:\.\d+)?\<close>, the only form in which
  the program calls it: the digits before and after the point over a power of ten.
\<close>

definition py_float :: "string \<Rightarrow> pyfloat" where
  "py_float g =
     (let ip = takeWhile isdigit g; fp = drop 1 (dropWhile isdigit g)
      in binary64 (digits_val (ip @ fp)) (10 ^ length fp))"

text \<open>\<^verbatim>\<open>int(math.ceil(x))\<close>; on infinity \<^verbatim>\<open>math.ceil\<close> raises \<^verbatim>\<open>OverflowError\<close>.\<close>

fun py_ceil :: "pyfloat \<Rightarrow> int option" where
  "py_ceil (Finite m e) = Some (if 0 \<le> e then m * 2 ^ nat e else - ((- m) div 2 ^ nat (- e)))"
| "py_ceil Infinity = None"

text \<open>\<^verbatim>\<open>str(n)\<close> for an integer: its decimal digits, after a minus sign if negative.\<close>

fun str_nat :: "nat \<Rightarrow> string" where
  "str_nat n = (if n < 10 then [char_of (48 + n)]
                else str_nat (n div 10) @ [char_of (48 + n mod 10)])"

declare str_nat.simps [simp del]

definition str_int :: "int \<Rightarrow> string" where
  "str_int i = (if i < 0 then CHR ''-'' # str_nat (nat (- i)) else str_nat (nat i))"


section \<open>The rate-limit classifier (\<^verbatim>\<open>create_plan_endpoint\<close>, lines 77 to 88)\<close>

text \<open>Line 78: \<^verbatim>\<open>'quota' in err_msg.lower() or '429' in err_msg\<close>.\<close>

definition is_rate_limited :: "string \<Rightarrow> bool" where
  "is_rate_limited err_msg \<longleftrightarrow> contains (lower err_msg) ''quota'' \<or> contains err_msg ''429''"

text \<open>
  Lines 80 to 88: the second pattern is searched only if the first has no match; any
  exception of the conversion leaves \<^verbatim>\<open>retry_after\<close> at \<^verbatim>\<open>None\<close>.
\<close>

definition extract_retry_after :: "string \<Rightarrow> int option" where
  "extract_retry_after err_msg =
     (let m = (case re_search True retry_in_rx err_msg of
                 Some m \<Rightarrow> Some m
               | None \<Rightarrow> re_search False retry_delay_rx err_msg)
      in case m of
           None \<Rightarrow> None
         | Some m \<Rightarrow> (case group1 m of None \<Rightarrow> None | Some g \<Rightarrow> py_ceil (py_float g)))"

text \<open>
  The classifier of the specification: whether the message is a rate limit, and the
  retry delay, which the program extracts on the rate-limit branch only.
\<close>

definition classify :: "string \<Rightarrow> bool \<times> int option" where
  "classify err_msg =
     (if is_rate_limited err_msg then (True, extract_retry_after err_msg) else (False, None))"


section \<open>JSON values and the reply normalizer (\<^verbatim>\<open>generate_plan\<close>)\<close>

text \<open>
  What \<^verbatim>\<open>json.loads\<close> returns: \<^verbatim>\<open>None\<close>, a bool, an int, a float, a str, a list or a dict.
  A dict is the list of its items in insertion order, its keys distinct. The non-finite
  floats that \<^verbatim>\<open>json.loads\<close> accepts are not represented.
\<close>

datatype json =
    JNull
  | JBool bool
  | JInt int
  | JFloat rat
  | JStr string
  | JArr "json list"
  | JObj "(string \<times> json) list"

text \<open>\<^verbatim>\<open>d.get(key, default)\<close> on the items of a dict.\<close>

definition dict_get :: "(string \<times> json) list \<Rightarrow> string \<Rightarrow> json \<Rightarrow> json" where
  "dict_get kvs k dflt = (case map_of kvs k of Some v \<Rightarrow> v | None \<Rightarrow> dflt)"

text \<open>
  \<^verbatim>\<open>json.loads\<close> is library code and a parameter of the model: it returns the parsed
  value, raises \<^verbatim>\<open>json.JSONDecodeError\<close>, or raises another exception with a message.
\<close>

datatype loads_result = Parsed json | JSONDecodeError | OtherError string

text \<open>
  Lines 164 to 172: \<^verbatim>\<open>(raw_text or '').strip()\<close>, the two \<^verbatim>\<open>re.sub\<close> calls that delete the
  code fences, and the removal of a leading \<^verbatim>\<open>json\<close> token.
\<close>

definition clean_reply :: "string option \<Rightarrow> string" where
  "clean_reply raw_text =
     (let t0 = strip (case raw_text of None \<Rightarrow> [] | Some t \<Rightarrow> t);
          t1 = re_sub_empty True fence_open_rx t0;
          t2 = re_sub_empty False fence_close_rx t1
      in if startswith (lower t2) ''json'' then strip (drop (length ''json'') t2) else t2)"

text \<open>Lines 175 to 179: the brace span if there is one, else the whole text.\<close>

definition json_candidate :: "string \<Rightarrow> string" where
  "json_candidate t =
     (case re_search False brace_rx t of
        Some m \<Rightarrow> strip (group0 m)
      | None \<Rightarrow> t)"

definition invalid_json_msg :: string where
  "invalid_json_msg =
     ''AI returned invalid JSON. See server logs or last_raw_model_response.txt for details.''"

text \<open>
  Lines 160 to 196 after the generation call: the parsed plan, the error dict of line
  192 on \<^verbatim>\<open>JSONDecodeError\<close>, the error dict of line 196 on any other exception. Log
  output and the debug file written at line 188 are not modelled.
\<close>

definition normalize_reply :: "(string \<Rightarrow> loads_result) \<Rightarrow> string option \<Rightarrow> json" where
  "normalize_reply loads raw_text =
     (case loads (json_candidate (clean_reply raw_text)) of
        Parsed plan \<Rightarrow> plan
      | JSONDecodeError \<Rightarrow> JObj [(''error'', JStr invalid_json_msg)]
      | OtherError e \<Rightarrow> JObj [(''error'', JStr e)])"

text \<open>
  The generation call \<^verbatim>\<open>model.generate_content(prompt)\<close> followed by the read of
  \<^verbatim>\<open>response.text\<close>. Either an exception \<open>e\<close> is raised or the raw text is obtained, which
  is \<^verbatim>\<open>None\<close> if the response has no such attribute. The handler of line 193 is
  \<^verbatim>\<open>except Exception\<close>, so the class of the exception matters: \<open>Raises (str e)\<close> is an
  exception that is an instance of \<^verbatim>\<open>Exception\<close>, \<open>RaisesOutside c\<close> is an exception of
  class \<open>c\<close> that is not, that is, one that derives from \<^verbatim>\<open>BaseException\<close> only
  (\<^verbatim>\<open>KeyboardInterrupt\<close>, \<^verbatim>\<open>SystemExit\<close>, \<^verbatim>\<open>GeneratorExit\<close>).
\<close>

datatype gen_result = Raises string | RaisesOutside string | Reply "string option"

text \<open>
  The world around a request: the environment variable \<^verbatim>\<open>DISABLE_AI\<close>, the outcome of the
  generation call for a goal (the prompt is a fixed text around the goal), \<^verbatim>\<open>json.loads\<close>,
  \<^verbatim>\<open>repr\<close> of a JSON value, whether the SQLite operations succeed, and the text that
  SQLite stores for a float in a column of type \<^verbatim>\<open>TEXT\<close>.
\<close>

record env =
  disable_ai_var :: "string option"
  generate_content :: "json \<Rightarrow> gen_result"
  json_loads :: "string \<Rightarrow> loads_result"
  py_repr :: "json \<Rightarrow> string"
  db_works :: bool
  sqlite_real_text :: "rat \<Rightarrow> string"

text \<open>Line 148.\<close>

definition ai_disabled :: "env \<Rightarrow> bool" where
  "ai_disabled ev \<longleftrightarrow>
     lower (case disable_ai_var ev of None \<Rightarrow> [] | Some v \<Rightarrow> v) \<in> set [''1'', ''true'', ''yes'']"

definition dummy_plan :: "json \<Rightarrow> json" where
  "dummy_plan goal =
     JObj [(''project_name'', JStr ''Local Test Plan''),
           (''tasks'', JArr [JObj [(''task_id'', JInt 1), (''task_name'', JStr ''Test task''),
              (''description'', goal), (''timeline_days'', JInt 1),
              (''dependencies'', JArr [])]])]"

text \<open>
  Lines 136 to 196. The result is \<open>Inr\<close> of the value that \<^verbatim>\<open>generate_plan\<close> returns, or
  \<open>Inl c\<close> when an exception of class \<open>c\<close> leaves it: \<^verbatim>\<open>except Exception\<close> at line 193
  catches the instances of \<^verbatim>\<open>Exception\<close> and no others.
\<close>

definition generate_plan :: "env \<Rightarrow> json \<Rightarrow> string + json" where
  "generate_plan ev goal =
     (if ai_disabled ev then Inr (dummy_plan goal)
      else case generate_content ev goal of
             Raises e \<Rightarrow> Inr (JObj [(''error'', JStr e)])
           | RaisesOutside c \<Rightarrow> Inl c
           | Reply raw_text \<Rightarrow> Inr (normalize_reply (json_loads ev) raw_text))"


section \<open>The request handler (\<^verbatim>\<open>create_plan_endpoint\<close>)\<close>

text \<open>
  What the handler does with a request: it returns a response (status, the headers it
  sets itself, JSON body), or \<^verbatim>\<open>get_json\<close> raises \<^verbatim>\<open>BadRequest\<close> on a body that does not
  decode, or an exception of the named class leaves the handler.
\<close>

datatype outcome =
    Response nat "(string \<times> string) list" json
  | BadRequest
  | Unhandled string

text \<open>
  A request: \<^verbatim>\<open>request.is_json\<close>, and the decoded body (\<open>None\<close> if it does not decode).
\<close>

record request =
  is_json :: bool
  body :: "json option"

text \<open>Python's truth value of a JSON value, for \<^verbatim>\<open>not goal\<close>.\<close>

fun truthy :: "json \<Rightarrow> bool" where
  "truthy JNull = False"
| "truthy (JBool b) = b"
| "truthy (JInt i) = (i \<noteq> 0)"
| "truthy (JFloat x) = (x \<noteq> 0)"
| "truthy (JStr s) = (s \<noteq> [])"
| "truthy (JArr xs) = (xs \<noteq> [])"
| "truthy (JObj kvs) = (kvs \<noteq> [])"

text \<open>
  Line 75, \<^verbatim>\<open>"error" in plan\<close>: a key of a dict, an element of a list, a substring of a
  str; on any other value the test raises \<^verbatim>\<open>TypeError\<close>.
\<close>

fun has_error :: "json \<Rightarrow> string + bool" where
  "has_error (JObj kvs) = Inr (''error'' \<in> fst ` set kvs)"
| "has_error (JArr xs) = Inr (JStr ''error'' \<in> set xs)"
| "has_error (JStr s) = Inr (contains s ''error'')"
| "has_error _ = Inl ''TypeError''"

text \<open>
  \<^verbatim>\<open>str(v)\<close> for a JSON value: a str is itself; \<^verbatim>\<open>None\<close>, the bools and the ints have fixed
  texts; floats, lists and dicts print as their \<^verbatim>\<open>repr\<close>, a parameter.
\<close>

fun py_str :: "(json \<Rightarrow> string) \<Rightarrow> json \<Rightarrow> string" where
  "py_str rp (JStr s) = s"
| "py_str rp JNull = ''None''"
| "py_str rp (JBool b) = (if b then ''True'' else ''False'')"
| "py_str rp (JInt i) = str_int i"
| "py_str rp v = rp v"

text \<open>
  Lines 78 to 100: the response for an error message. A rate limit is answered with
  429, with the header and the body field if a delay was extracted; any other error
  with 500.
\<close>

definition error_response :: "string \<Rightarrow> outcome" where
  "error_response err_msg =
     (if is_rate_limited err_msg then
        (case extract_retry_after err_msg of
           Some retry_after \<Rightarrow>
             Response 429 [(''Retry-After'', str_int retry_after)]
               (JObj [(''error'', JStr err_msg), (''retry_after'', JInt retry_after)])
         | None \<Rightarrow> Response 429 [] (JObj [(''error'', JStr err_msg)]))
      else Response 500 [] (JObj [(''error'', JStr err_msg)]))"

text \<open>
  The table \<^verbatim>\<open>plans\<close>: a row is the text in the column \<^verbatim>\<open>project_name\<close> and the plan (the
  column \<^verbatim>\<open>plan_data\<close> holds \<^verbatim>\<open>json.dumps(plan)\<close>; the model keeps the value that text
  encodes). The column \<^verbatim>\<open>project_name\<close> is declared \<^verbatim>\<open>TEXT NOT NULL\<close>, so what is bound to
  it is stored as text: a str as itself, an int of 64 bits as its decimal text, a bool
  (an int for \<^verbatim>\<open>sqlite3\<close>) as \<^verbatim>\<open>1\<close> or \<^verbatim>\<open>0\<close>, a float as the text SQLite prints for it.
  An int outside 64 bits raises \<^verbatim>\<open>OverflowError\<close>, \<^verbatim>\<open>None\<close> violates \<^verbatim>\<open>NOT NULL\<close>, a list or a
  dict cannot be bound: these are \<open>None\<close>.
\<close>

type_synonym db = "(string \<times> json) list"

fun stored_name :: "(rat \<Rightarrow> string) \<Rightarrow> json \<Rightarrow> string option" where
  "stored_name rt (JStr s) = Some s"
| "stored_name rt (JInt i) = (if - (2 ^ 63) \<le> i \<and> i < 2 ^ 63 then Some (str_int i) else None)"
| "stored_name rt (JFloat x) = Some (rt x)"
| "stored_name rt (JBool b) = Some (if b then ''1'' else ''0'')"
| "stored_name rt _ = None"

text \<open>
  Lines 103 to 116, the body of the \<^verbatim>\<open>try\<close>: \<open>None\<close> if an exception is raised (the
  database fails, \<^verbatim>\<open>plan.get\<close> does not exist, the name cannot be stored), else the
  table with the new row.
\<close>

definition save_plan :: "env \<Rightarrow> db \<Rightarrow> json \<Rightarrow> db option" where
  "save_plan ev d plan =
     (if \<not> db_works ev then None
      else case plan of
             JObj kvs \<Rightarrow>
               (case stored_name (sqlite_real_text ev)
                       (dict_get kvs ''project_name'' (JStr ''Untitled Plan'')) of
                  Some name \<Rightarrow> Some (d @ [(name, plan)])
                | None \<Rightarrow> None)
           | _ \<Rightarrow> None)"

text \<open>
  Lines 62 to 119. The result is the outcome and the table afterwards. The call of
  \<^verbatim>\<open>generate_plan\<close> at line 73 stands in no \<^verbatim>\<open>try\<close>, so an exception that leaves
  \<^verbatim>\<open>generate_plan\<close> leaves the handler. An exception of the \<^verbatim>\<open>try\<close> at line 103 is
  caught and only logged.
\<close>

definition create_plan_endpoint :: "env \<Rightarrow> db \<Rightarrow> request \<Rightarrow> outcome \<times> db" where
  "create_plan_endpoint ev d req =
     (if \<not> is_json req then
        (Response 400 [] (JObj [(''error'', JStr ''Missing JSON in request'')]), d)
      else case body req of
        None \<Rightarrow> (BadRequest, d)
      | Some (JObj kvs) \<Rightarrow>
          (let goal = dict_get kvs ''goal'' JNull
           in if \<not> truthy goal then
                (Response 400 []
                   (JObj [(''error'', JStr (''The '' @ [CHR 0x27] @ ''goal'' @ [CHR 0x27]
                      @ '' field is required.''))]), d)
              else
                (case generate_plan ev goal of
                   Inl exn \<Rightarrow> (Unhandled exn, d)
                 | Inr plan \<Rightarrow>
                     (case has_error plan of
                        Inl exn \<Rightarrow> (Unhandled exn, d)
                      | Inr True \<Rightarrow>
                          (case plan of
                             JObj pkvs \<Rightarrow>
                               (error_response
                                  (py_str (py_repr ev) (dict_get pkvs ''error'' (JStr []))), d)
                           | _ \<Rightarrow> (Unhandled ''AttributeError'', d))
                      | Inr False \<Rightarrow>
                          (Response 200 [] plan,
                           case save_plan ev d plan of Some d' \<Rightarrow> d' | None \<Rightarrow> d))))
      | Some _ \<Rightarrow> (Unhandled ''AttributeError'', d))"


section \<open>Example inputs\<close>

text \<open>A world in which the generation call raises a quota error.\<close>

definition failing_env :: env where
  "failing_env =
     \<lparr>disable_ai_var = None,
      generate_content = (\<lambda>_. Raises ''429 quota exceeded. Please retry in 12.4s''),
      json_loads = (\<lambda>_. JSONDecodeError), py_repr = (\<lambda>_. []), db_works = True,
      sqlite_real_text = (\<lambda>_. [])\<rparr>"

text \<open>A world in which the generation call is interrupted from the keyboard.\<close>

definition interrupted_env :: env where
  "interrupted_env =
     \<lparr>disable_ai_var = None,
      generate_content = (\<lambda>_. RaisesOutside ''KeyboardInterrupt''),
      json_loads = (\<lambda>_. JSONDecodeError), py_repr = (\<lambda>_. []), db_works = True,
      sqlite_real_text = (\<lambda>_. [])\<rparr>"

text \<open>A well-formed request.\<close>

definition goal_request :: request where
  "goal_request = \<lparr>is_json = True, body = Some (JObj [(''goal'', JStr ''ship it'')])\<rparr>"


text \<open>A world in which the reply has no text, and one in which the generation is
  switched off and the database fails.\<close>

definition silent_env :: env where
  "silent_env =
     \<lparr>disable_ai_var = None, generate_content = (\<lambda>_. Reply None),
      json_loads = (\<lambda>t. if t = [] then JSONDecodeError else Parsed JNull),
      py_repr = (\<lambda>_. []), db_works = True,
      sqlite_real_text = (\<lambda>_. [])\<rparr>"

definition offline_env :: env where
  "offline_env =
     \<lparr>disable_ai_var = Some ''TRUE'', generate_content = (\<lambda>_. Reply None),
      json_loads = (\<lambda>_. JSONDecodeError), py_repr = (\<lambda>_. []), db_works = False,
      sqlite_real_text = (\<lambda>_. [])\<rparr>"


text \<open>A world in which the model replies with a JSON object that has an \<^verbatim>\<open>error\<close> key.\<close>

definition refusing_env :: env where
  \<open>refusing_env =
     \<lparr>disable_ai_var = None,
      generate_content =
        (\<lambda>_. Reply (Some ''{"error": "quota exceeded, retry_delay { seconds: 7 }"}'')),
      json_loads =
        (\<lambda>t. if t = ''{"error": "quota exceeded, retry_delay { seconds: 7 }"}''
              then Parsed (JObj [(''error'', JStr ''quota exceeded, retry_delay { seconds: 7 }'')])
              else JSONDecodeError),
      py_repr = (\<lambda>_. []), db_works = True,
      sqlite_real_text = (\<lambda>_. [])\<rparr>\<close>


text \<open>The part of the brace pattern after the opening brace.\<close>

definition brace_tail :: rx where
  "brace_tail = Seq (Star (Either Space NonSpace)) (Atom (Lit (CHR ''}'')))"


text \<open>A \<^verbatim>\<open>json.loads\<close> that knows the plan of the specification's example.\<close>

definition example_loads :: "string \<Rightarrow> loads_result" where
  \<open>example_loads t =
     (if t = ''{"project_name":"X","tasks":[]}''
      then Parsed (JObj [(''project_name'', JStr ''X''), (''tasks'', JArr [])])
      else JSONDecodeError)\<close>

section \<open>The retry patterns, read on the text\<close>

text \<open>
  What the patterns of lines 80 and 82 match, said on the message itself and without the
  matcher; the lemmas below prove that \<open>re_search\<close> on the two patterns finds exactly these
  occurrences. A run of whitespace, a run of digits.
\<close>

definition all_space :: "string \<Rightarrow> bool" where
  "all_space ws \<longleftrightarrow> list_all isspace ws"

definition all_digits :: "string \<Rightarrow> bool" where
  "all_digits ds \<longleftrightarrow> list_all isdigit ds"

text \<open>A number as \<^verbatim>\<open>\d+(?:\.\d+)?\<close> matches it: digits, then optionally a point and digits.\<close>

definition number_text :: "string \<Rightarrow> bool" where
  "number_text g \<longleftrightarrow>
     (\<exists>ip. ip \<noteq> [] \<and> all_digits ip \<and>
        (g = ip \<or> (\<exists>fp. fp \<noteq> [] \<and> all_digits fp \<and> g = ip @ ''.'' @ fp)))"

definition number_rx :: rx where
  "number_rx = Seq (Plus Digit) (Opt (Seq (Atom (Lit (CHR ''.''))) (Plus Digit)))"

text \<open>
  The text \<open>s\<close> begins with a match of the first pattern whose group is \<open>g\<close> and after which
  \<open>post\<close> is left: \<^verbatim>\<open>Please retry in\<close> in any case, whitespace, the number, \<^verbatim>\<open>s\<close> in any
  case.
\<close>

definition retry_in_here :: "string \<Rightarrow> string \<Rightarrow> string \<Rightarrow> bool" where
  "retry_in_here s g post \<longleftrightarrow>
     (\<exists>lit ws c. s = lit @ ws @ g @ c # post \<and> lower lit = ''please retry in'' \<and>
        all_space ws \<and> number_text g \<and> lower_char c = CHR ''s'')"

text \<open>
  The text \<open>s\<close> begins with a match of the second pattern whose group is \<open>g\<close> and after
  which \<open>post\<close> is left: \<^verbatim>\<open>retry_delay\<close>, whitespace, an opening brace, text without a
  closing brace, \<^verbatim>\<open>seconds:\<close>, whitespace, digits.
\<close>

definition retry_delay_here :: "string \<Rightarrow> string \<Rightarrow> string \<Rightarrow> bool" where
  "retry_delay_here s g post \<longleftrightarrow>
     (\<exists>ws mid ws'. s = ''retry_delay'' @ ws @ ''{'' @ mid @ ''seconds:'' @ ws' @ g @ post \<and>
        all_space ws \<and> CHR ''}'' \<notin> set mid \<and> all_space ws' \<and> g \<noteq> [] \<and> all_digits g)"

text \<open>
  The message has an occurrence of the first pattern with group \<open>g\<close>; it has an
  occurrence of the second pattern with group \<open>g\<close>, the digits running as far as they
  can.
\<close>

definition retry_in_occurs :: "string \<Rightarrow> string \<Rightarrow> bool" where
  "retry_in_occurs msg g \<longleftrightarrow> (\<exists>pre rest post. msg = pre @ rest \<and> retry_in_here rest g post)"

definition retry_delay_occurs :: "string \<Rightarrow> string \<Rightarrow> bool" where
  "retry_delay_occurs msg g \<longleftrightarrow>
     (\<exists>pre rest post. msg = pre @ rest \<and> retry_delay_here rest g post \<and>
        (case post of [] \<Rightarrow> True | x # xs \<Rightarrow> \<not> isdigit x))"

text \<open>
  An expression whose preferred match, from any state, stops where no digit follows.
\<close>

definition longest_digits :: "bool \<Rightarrow> nat \<Rightarrow> rx \<Rightarrow> bool" where
  "longest_digits ic n r \<longleftrightarrow>
     (\<forall>st. ms ic n r st \<noteq> [] \<longrightarrow>
        (case snd (hd (ms ic n r st)) of [] \<Rightarrow> True | x # xs \<Rightarrow> \<not> isdigit x))"

text \<open>A world in which the generation call raises a quota error that names no delay.\<close>

definition quota_env :: env where
  "quota_env =
     \<lparr>disable_ai_var = None,
      generate_content = (\<lambda>_. Raises ''Quota exceeded for this project''),
      json_loads = (\<lambda>_. JSONDecodeError), py_repr = (\<lambda>_. []), db_works = True,
      sqlite_real_text = (\<lambda>_. [])\<rparr>"


section \<open>The handler on an error dict\<close>

lemma error_response_not_Unhandled: "error_response m \<noteq> Unhandled x"
  by (simp add: error_response_def split: option.splits)

lemma handler_on_error_dict:
  assumes "is_json req" "body req = Some (JObj kvs)" "truthy (dict_get kvs ''goal'' JNull)"
    and "generate_plan ev (dict_get kvs ''goal'' JNull) = Inr (JObj pkvs)"
    and "''error'' \<in> fst ` set pkvs"
  shows "create_plan_endpoint ev d req =
           (error_response (py_str (py_repr ev) (dict_get pkvs ''error'' (JStr []))), d)"
  using assms by (simp add: create_plan_endpoint_def)

lemma failing_env_enabled: "\<not> ai_disabled failing_env"
  by (simp add: ai_disabled_def failing_env_def lower_def)

lemma goal_request_ok:
  "is_json goal_request \<and> body goal_request = Some (JObj [(''goal'', JStr ''ship it'')]) \<and>
   dict_get [(''goal'', JStr ''ship it'')] ''goal'' JNull = JStr ''ship it'' \<and>
   truthy (JStr ''ship it'')"
  by (simp add: goal_request_def dict_get_def)


section \<open>Exceptions of the generation call\<close>

lemma interrupted_env_enabled: "\<not> ai_disabled interrupted_env"
  by (simp add: ai_disabled_def interrupted_env_def lower_def)

text \<open>
  Claim C8, as stated, fails: line 193 is \<^verbatim>\<open>except Exception\<close>, and an exception that is
  not an instance of \<^verbatim>\<open>Exception\<close> is not caught. When the generation call raises
  \<^verbatim>\<open>KeyboardInterrupt\<close>, the exception leaves \<^verbatim>\<open>generate_plan\<close>, which returns no error
  result, and then leaves the request handler.
\<close>

theorem generation_interrupt_propagates:
  "generate_content interrupted_env (JStr ''ship it'') = RaisesOutside ''KeyboardInterrupt'' \<and>
   generate_plan interrupted_env (JStr ''ship it'') = Inl ''KeyboardInterrupt'' \<and>
   create_plan_endpoint interrupted_env [] goal_request = (Unhandled ''KeyboardInterrupt'', [])"
  by (simp add: generate_plan_def interrupted_env_enabled create_plan_endpoint_def
      goal_request_def dict_get_def)
    (simp add: interrupted_env_def)

text \<open>
  Claim C8, amended. When the generation call is made and raises an exception that is an
  instance of \<^verbatim>\<open>Exception\<close>, with message \<open>e\<close>, \<^verbatim>\<open>generate_plan\<close> returns the error dict
  that carries \<open>e\<close> unchanged and no exception leaves it; the handler of a well-formed
  request with that goal then answers with the error response for \<open>e\<close>, the table is
  untouched, and no exception leaves the handler. When the generation call raises an
  exception of a class \<open>c\<close> that is not an instance of \<^verbatim>\<open>Exception\<close>, the exception
  leaves \<^verbatim>\<open>generate_plan\<close> and the handler.
\<close>

theorem generation_exception_caught:
  assumes "\<not> ai_disabled ev"
  shows "(generate_content ev goal = Raises e \<longrightarrow>
            generate_plan ev goal = Inr (JObj [(''error'', JStr e)]) \<and>
            (\<forall>d req kvs. is_json req \<and> body req = Some (JObj kvs) \<and>
                dict_get kvs ''goal'' JNull = goal \<and> truthy goal \<longrightarrow>
                create_plan_endpoint ev d req = (error_response e, d) \<and>
                (\<forall>x. fst (create_plan_endpoint ev d req) \<noteq> Unhandled x))) \<and>
         (generate_content ev goal = RaisesOutside c \<longrightarrow>
            generate_plan ev goal = Inl c \<and>
            (\<forall>d req kvs. is_json req \<and> body req = Some (JObj kvs) \<and>
                dict_get kvs ''goal'' JNull = goal \<and> truthy goal \<longrightarrow>
                create_plan_endpoint ev d req = (Unhandled c, d)))"
proof (intro conjI impI)
  assume r: "generate_content ev goal = Raises e"
  show g: "generate_plan ev goal = Inr (JObj [(''error'', JStr e)])"
    using assms r by (simp add: generate_plan_def)
  have "create_plan_endpoint ev d req = (error_response e, d)"
    if "is_json req" "body req = Some (JObj kvs)" "dict_get kvs ''goal'' JNull = goal"
      "truthy goal" for d req kvs
    using handler_on_error_dict[of req kvs ev "[(''error'', JStr e)]" d] that g
    by (simp add: dict_get_def)
  then show "\<forall>d req kvs. is_json req \<and> body req = Some (JObj kvs) \<and>
      dict_get kvs ''goal'' JNull = goal \<and> truthy goal \<longrightarrow>
      create_plan_endpoint ev d req = (error_response e, d) \<and>
      (\<forall>x. fst (create_plan_endpoint ev d req) \<noteq> Unhandled x)"
    by (auto simp: error_response_not_Unhandled)
next
  assume r: "generate_content ev goal = RaisesOutside c"
  show g: "generate_plan ev goal = Inl c"
    using assms r by (simp add: generate_plan_def)
  show "\<forall>d req kvs. is_json req \<and> body req = Some (JObj kvs) \<and>
      dict_get kvs ''goal'' JNull = goal \<and> truthy goal \<longrightarrow>
      create_plan_endpoint ev d req = (Unhandled c, d)"
    using g by (auto simp: create_plan_endpoint_def)
qed

theorem generation_exception_caught_witness:
  "\<not> ai_disabled failing_env \<and>
   generate_content failing_env (JStr ''ship it'') =
     Raises ''429 quota exceeded. Please retry in 12.4s'' \<and>
   generate_plan failing_env (JStr ''ship it'') =
     Inr (JObj [(''error'', JStr ''429 quota exceeded. Please retry in 12.4s'')]) \<and>
   fst (create_plan_endpoint failing_env [] goal_request) =
     error_response ''429 quota exceeded. Please retry in 12.4s'' \<and>
   \<not> ai_disabled interrupted_env \<and>
   generate_content interrupted_env (JStr ''ship it'') = RaisesOutside ''KeyboardInterrupt'' \<and>
   generate_plan interrupted_env (JStr ''ship it'') = Inl ''KeyboardInterrupt'' \<and>
   fst (create_plan_endpoint interrupted_env [] goal_request) = Unhandled ''KeyboardInterrupt''"
proof -
  have h2: "generate_content failing_env (JStr ''ship it'') =
      Raises ''429 quota exceeded. Please retry in 12.4s''"
    by (simp add: failing_env_def)
  have h3: "generate_content interrupted_env (JStr ''ship it'') =
      RaisesOutside ''KeyboardInterrupt''"
    by (simp add: interrupted_env_def)
  from generation_exception_caught[OF failing_env_enabled,
      of "JStr ''ship it''" "''429 quota exceeded. Please retry in 12.4s''"] goal_request_ok
  have a: "generate_plan failing_env (JStr ''ship it'') =
       Inr (JObj [(''error'', JStr ''429 quota exceeded. Please retry in 12.4s'')]) \<and>
     fst (create_plan_endpoint failing_env [] goal_request) =
       error_response ''429 quota exceeded. Please retry in 12.4s''"
    using h2 by simp
  from generation_exception_caught[OF interrupted_env_enabled,
      of "JStr ''ship it''" _ "''KeyboardInterrupt''"] goal_request_ok
  have b: "generate_plan interrupted_env (JStr ''ship it'') = Inl ''KeyboardInterrupt'' \<and>
     fst (create_plan_endpoint interrupted_env [] goal_request) = Unhandled ''KeyboardInterrupt''"
    using h3 by simp
  show ?thesis using failing_env_enabled interrupted_env_enabled h2 h3 a b by blast
qed

section \<open>Empty and missing replies\<close>

lemma clean_reply_None: "clean_reply None = []"
  by code_simp

lemma clean_reply_empty: "clean_reply (Some []) = []"
  by code_simp

lemma json_candidate_empty: "json_candidate [] = []"
  by code_simp

lemma silent_env_enabled: "\<not> ai_disabled silent_env"
  by (simp add: ai_disabled_def silent_env_def lower_def)

text \<open>
  Claim C4. When the raw reply text is \<^verbatim>\<open>None\<close> or empty, cleaning yields the empty
  string and, \<^verbatim>\<open>json.loads('')\<close> raising \<^verbatim>\<open>JSONDecodeError\<close>, \<^verbatim>\<open>generate_plan\<close> returns the
  invalid-JSON error dict; it is a value, nothing is raised.
\<close>

theorem empty_reply_is_invalid_json:
  assumes "\<not> ai_disabled ev" and "json_loads ev [] = JSONDecodeError"
    and "generate_content ev goal = Reply raw" and "raw = None \<or> raw = Some []"
  shows "clean_reply raw = [] \<and>
         generate_plan ev goal = Inr (JObj [(''error'', JStr invalid_json_msg)])"
proof -
  have c: "clean_reply raw = []"
    using assms(4) clean_reply_None clean_reply_empty by auto
  then show ?thesis
    using assms(1-3) by (simp add: generate_plan_def normalize_reply_def json_candidate_empty)
qed

theorem empty_reply_is_invalid_json_witness:
  "\<not> ai_disabled silent_env \<and> json_loads silent_env [] = JSONDecodeError \<and>
   generate_content silent_env (JStr ''ship it'') = Reply None \<and>
   generate_plan silent_env (JStr ''ship it'') =
     Inr (JObj [(''error'', JStr invalid_json_msg)])"
proof -
  have h2: "json_loads silent_env [] = JSONDecodeError"
    by (simp add: silent_env_def)
  have h3: "generate_content silent_env (JStr ''ship it'') = Reply None"
    by (simp add: silent_env_def)
  from empty_reply_is_invalid_json[OF silent_env_enabled h2 h3]
  show ?thesis using silent_env_enabled h2 h3 by simp
qed


section \<open>Persistence\<close>

lemma offline_plan: "generate_plan offline_env g = Inr (dummy_plan g)"
  by (simp add: generate_plan_def ai_disabled_def offline_env_def lower_def lower_char_def
      char_of_eq_iff)

text \<open>
  Claim C9. Whenever the handler reaches the persistence step, that is the plan passed
  the test \<^verbatim>\<open>"error" in plan\<close> with the answer no, the response is 200 with the plan as
  body whatever the step does; if the step raises (as it does whenever the database
  fails), the exception is swallowed and the table is left as it was.
\<close>

theorem persistence_failure_swallowed:
  assumes "is_json req" and "body req = Some (JObj kvs)"
    and "truthy (dict_get kvs ''goal'' JNull)"
    and "generate_plan ev (dict_get kvs ''goal'' JNull) = Inr plan"
    and "has_error plan = Inr False"
  shows "fst (create_plan_endpoint ev d req) = Response 200 [] plan \<and>
         (save_plan ev d plan = None \<longrightarrow>
            create_plan_endpoint ev d req = (Response 200 [] plan, d)) \<and>
         (\<not> db_works ev \<longrightarrow> save_plan ev d plan = None)"
  using assms by (simp add: create_plan_endpoint_def save_plan_def Let_def)

theorem persistence_failure_swallowed_witness:
  "is_json goal_request \<and> body goal_request = Some (JObj [(''goal'', JStr ''ship it'')]) \<and>
   truthy (dict_get [(''goal'', JStr ''ship it'')] ''goal'' JNull) \<and>
   has_error (dummy_plan (JStr ''ship it'')) = Inr False \<and> \<not> db_works offline_env \<and>
   create_plan_endpoint offline_env [] goal_request =
     (Response 200 [] (dummy_plan (JStr ''ship it'')), [])"
proof -
  have p: "generate_plan offline_env (dict_get [(''goal'', JStr ''ship it'')] ''goal'' JNull) =
      Inr (dummy_plan (JStr ''ship it''))"
    by (simp add: offline_plan dict_get_def)
  have e: "has_error (dummy_plan (JStr ''ship it'')) = Inr False"
    by (simp add: dummy_plan_def)
  have t: "truthy (dict_get [(''goal'', JStr ''ship it'')] ''goal'' JNull)"
    by (simp add: dict_get_def)
  have w: "\<not> db_works offline_env"
    by (simp add: offline_env_def)
  from persistence_failure_swallowed[OF _ _ t p e, of goal_request "[]"] goal_request_ok w
  show ?thesis using e t by simp
qed

section \<open>A parsed reply with an \<^verbatim>\<open>error\<close> key\<close>

lemma error_response_shape:
  "\<exists>st hs b. error_response m = Response st hs (JObj ((''error'', JStr m) # b)) \<and>
     (st = 429 \<or> st = 500)"
  by (simp add: error_response_def split: option.splits)

lemma map_of_fst: "map_of kvs k = Some v \<Longrightarrow> k \<in> fst ` set kvs"
  by (induction kvs) (auto split: if_splits)

lemma refusing_env_enabled: "\<not> ai_disabled refusing_env"
  by (simp add: ai_disabled_def refusing_env_def lower_def)

lemma refusing_candidate:
  \<open>json_candidate
     (clean_reply (Some ''{"error": "quota exceeded, retry_delay { seconds: 7 }"}'')) =
   ''{"error": "quota exceeded, retry_delay { seconds: 7 }"}''\<close>
  by code_simp

lemma refusing_response:
  "error_response ''quota exceeded, retry_delay { seconds: 7 }'' =
     Response 429 [(''Retry-After'', ''7'')]
       (JObj [(''error'', JStr ''quota exceeded, retry_delay { seconds: 7 }''),
              (''retry_after'', JInt 7)])"
  by code_simp

text \<open>
  Claim C10. When the reply parses to a JSON object with a top-level key \<^verbatim>\<open>error\<close> of
  value \<open>v\<close>, the handler answers with the error response for \<^verbatim>\<open>str(v)\<close> (which is \<open>v\<close>
  itself when \<open>v\<close> is a string): status 429 or 500, the message in the body field
  \<^verbatim>\<open>error\<close>, and the table is left as it was.
\<close>

theorem parsed_error_key_is_failure:
  assumes "is_json req" and "body req = Some (JObj kvs)"
    and "goal = dict_get kvs ''goal'' JNull" and "truthy goal"
    and "\<not> ai_disabled ev" and "generate_content ev goal = Reply raw"
    and "json_loads ev (json_candidate (clean_reply raw)) = Parsed (JObj pkvs)"
    and "map_of pkvs ''error'' = Some v"
  shows "create_plan_endpoint ev d req = (error_response (py_str (py_repr ev) v), d) \<and>
         (\<exists>st hs b. fst (create_plan_endpoint ev d req) =
             Response st hs (JObj ((''error'', JStr (py_str (py_repr ev) v)) # b)) \<and>
             (st = 429 \<or> st = 500)) \<and>
         (\<forall>s. v = JStr s \<longrightarrow> py_str (py_repr ev) v = s)"
proof -
  have g: "generate_plan ev (dict_get kvs ''goal'' JNull) = Inr (JObj pkvs)"
    using assms(3,5,6,7) by (simp add: generate_plan_def normalize_reply_def)
  have k: "''error'' \<in> fst ` set pkvs"
    using assms(8) by (rule map_of_fst)
  have "create_plan_endpoint ev d req =
      (error_response (py_str (py_repr ev) (dict_get pkvs ''error'' (JStr []))), d)"
    using handler_on_error_dict[of req kvs ev pkvs d] assms(1-4) g k by simp
  then have e: "create_plan_endpoint ev d req = (error_response (py_str (py_repr ev) v), d)"
    using assms(8) by (simp add: dict_get_def)
  show ?thesis
    using e error_response_shape[of "py_str (py_repr ev) v"] by auto
qed

theorem parsed_error_key_is_failure_witness:
  \<open>is_json goal_request \<and> body goal_request = Some (JObj [(''goal'', JStr ''ship it'')]) \<and>
   truthy (JStr ''ship it'') \<and> \<not> ai_disabled refusing_env \<and>
   generate_content refusing_env (JStr ''ship it'') =
     Reply (Some ''{"error": "quota exceeded, retry_delay { seconds: 7 }"}'') \<and>
   create_plan_endpoint refusing_env [] goal_request =
     (Response 429 [(''Retry-After'', ''7'')]
        (JObj [(''error'', JStr ''quota exceeded, retry_delay { seconds: 7 }''),
               (''retry_after'', JInt 7)]), [])\<close>
proof -
  have h6: \<open>generate_content refusing_env (JStr ''ship it'') =
      Reply (Some ''{"error": "quota exceeded, retry_delay { seconds: 7 }"}'')\<close>
    by (simp add: refusing_env_def)
  have h7: \<open>json_loads refusing_env
      (json_candidate
        (clean_reply (Some ''{"error": "quota exceeded, retry_delay { seconds: 7 }"}''))) =
      Parsed (JObj [(''error'', JStr ''quota exceeded, retry_delay { seconds: 7 }'')])\<close>
    by (simp only: refusing_candidate) (simp add: refusing_env_def)
  have h3: "JStr ''ship it'' = dict_get [(''goal'', JStr ''ship it'')] ''goal'' JNull"
    by (simp add: dict_get_def)
  have h8: "map_of [(''error'', JStr ''quota exceeded, retry_delay { seconds: 7 }'')] ''error'' =
      Some (JStr ''quota exceeded, retry_delay { seconds: 7 }'')"
    by simp
  from parsed_error_key_is_failure[OF _ _ h3 _ refusing_env_enabled h6 h7 h8,
      of goal_request "[]"] goal_request_ok
  show ?thesis
    using refusing_env_enabled h6 by (simp add: refusing_response)
qed


section \<open>The examples of the classifier\<close>

text \<open>
  Claim C1, as stated, fails: the message \<^verbatim>\<open>Rate limit: Please retry in 12.4s\<close> contains
  neither \<^verbatim>\<open>quota\<close> nor \<^verbatim>\<open>429\<close>, so it is not classified as a rate limit and no delay
  is extracted.
\<close>

theorem retry_in_example_not_rate_limited:
  "classify ''Rate limit: Please retry in 12.4s'' = (False, None)"
  by code_simp

text \<open>
  Claim C1, amended. For the error message \<^verbatim>\<open>429 Rate limit: Please retry in 12.4s\<close> the
  classifier returns true and 13, the ceiling of 12.4, and the handler answers 429 with
  the header \<^verbatim>\<open>Retry-After: 13\<close> and the body field \<^verbatim>\<open>retry_after\<close> 13. For the message
  \<^verbatim>\<open>Rate limit: Please retry in 12.4s\<close> itself the classifier returns false with no delay
  and the handler answers 500 with the message alone.
\<close>

theorem retry_in_example_amended:
  "classify ''429 Rate limit: Please retry in 12.4s'' = (True, Some 13) \<and>
   error_response ''429 Rate limit: Please retry in 12.4s'' =
     Response 429 [(''Retry-After'', ''13'')]
       (JObj [(''error'', JStr ''429 Rate limit: Please retry in 12.4s''),
              (''retry_after'', JInt 13)]) \<and>
   classify ''Rate limit: Please retry in 12.4s'' = (False, None) \<and>
   error_response ''Rate limit: Please retry in 12.4s'' =
     Response 500 [] (JObj [(''error'', JStr ''Rate limit: Please retry in 12.4s'')])"
  by code_simp

section \<open>Facts about the matcher\<close>

section \<open>Greedy repetition\<close>

lemma greedy_nonempty: "greedy p s \<noteq> []"
  by (induction s) auto

lemma hd_greedy: "hd (greedy p s) = dropWhile p s"
  by (induction s) (auto simp: greedy_nonempty)

lemma set_greedy: "t \<in> set (greedy p s) \<longleftrightarrow> (\<exists>w. s = w @ t \<and> (\<forall>x\<in>set w. p x))"
proof (induction s)
  case Nil
  then show ?case by auto
next
  case (Cons a s)
  show ?case
  proof (cases "p a")
    case True
    have "(\<exists>w. a # s = w @ t \<and> (\<forall>x\<in>set w. p x)) \<longleftrightarrow>
        t = a # s \<or> (\<exists>w. s = w @ t \<and> (\<forall>x\<in>set w. p x))"
      using True by (auto simp: Cons_eq_append_conv)
    then show ?thesis using True Cons.IH by auto
  next
    case False
    have "(\<exists>w. a # s = w @ t \<and> (\<forall>x\<in>set w. p x)) \<longleftrightarrow> t = a # s"
      using False by (auto simp: Cons_eq_append_conv)
    then show ?thesis using False by auto
  qed
qed

lemma set_greedy1:
  "t \<in> set (greedy1 p s) \<longleftrightarrow> (\<exists>w. s = w @ t \<and> w \<noteq> [] \<and> (\<forall>x\<in>set w. p x))"
proof (cases s)
  case Nil
  then show ?thesis by simp
next
  case (Cons a s')
  show ?thesis
  proof (cases "p a")
    case True
    have "(\<exists>w. a # s' = w @ t \<and> w \<noteq> [] \<and> (\<forall>x\<in>set w. p x)) \<longleftrightarrow>
        (\<exists>w. s' = w @ t \<and> (\<forall>x\<in>set w. p x))"
      using True by (auto simp: Cons_eq_append_conv)
    then show ?thesis using True Cons by (simp add: set_greedy)
  next
    case False
    have "\<not> (\<exists>w. a # s' = w @ t \<and> w \<noteq> [] \<and> (\<forall>x\<in>set w. p x))"
      using False by (auto simp: Cons_eq_append_conv)
    then show ?thesis using False Cons by simp
  qed
qed

lemma greedy_then:
  assumes "\<And>x xs. p x \<Longrightarrow> f (x # xs) = []"
  shows "concat (map f (greedy p s)) = f (dropWhile p s)"
  using assms by (induction s) auto

lemma greedy1_then:
  assumes "\<And>x xs. p x \<Longrightarrow> f (x # xs) = []"
  shows "concat (map f (greedy1 p s)) =
           (case s of [] \<Rightarrow> [] | x # xs \<Rightarrow> if p x then f (dropWhile p s) else [])"
  using assms greedy_then[of p f] by (cases s) auto

section \<open>The matcher, item by item\<close>

lemma ms_Seq_Bos: "ms ic n (Seq Bos r) (cap, s) = (if length s = n then ms ic n r (cap, s) else [])"
  by simp

lemma ms_Seq_Atom:
  "ms ic n (Seq (Atom c) r) (cap, s) =
     (case s of [] \<Rightarrow> [] | x # xs \<Rightarrow> if cls_match ic c x then ms ic n r (cap, xs) else [])"
  by (simp split: list.splits)

lemma ms_Seq_Star:
  assumes "\<And>x xs. cls_match ic c x \<Longrightarrow> ms ic n r (cap, x # xs) = []"
  shows "ms ic n (Seq (Star c) r) (cap, s) = ms ic n r (cap, dropWhile (cls_match ic c) s)"
  using greedy_then[of "cls_match ic c" "\<lambda>t. ms ic n r (cap, t)" s] assms
  by (simp add: comp_def)

lemma ms_Seq_Plus:
  assumes "\<And>x xs. cls_match ic c x \<Longrightarrow> ms ic n r (cap, x # xs) = []"
  shows "ms ic n (Seq (Plus c) r) (cap, s) =
     (case s of [] \<Rightarrow> []
      | x # xs \<Rightarrow> if cls_match ic c x then ms ic n r (cap, dropWhile (cls_match ic c) s) else [])"
  using greedy1_then[of "cls_match ic c" "\<lambda>t. ms ic n r (cap, t)" s] assms
  by (simp add: comp_def)

lemma concat_map_concat: "concat (map f (concat xss)) = concat (map (\<lambda>xs. concat (map f xs)) xss)"
  by (induction xss) auto

lemma ms_Seq_assoc: "ms ic n (Seq (Seq a b) c) st = ms ic n (Seq a (Seq b c)) st"
proof -
  have "ms ic n (Seq b c) = (\<lambda>x. concat (map (ms ic n c) (ms ic n b x)))"
    by (rule ext) simp
  then show ?thesis by (simp add: concat_map_concat comp_def)
qed

lemma ms_lits:
  "ms ic n (lits l) (cap, s) = (if lit_prefix ic l s then [(cap, drop (length l) s)] else [])"
proof (induction l arbitrary: s)
  case Nil
  then show ?case by (simp add: lits_def)
next
  case (Cons a l)
  have "lits (a # l) = Seq (Atom (Lit a)) (lits l)" by (simp add: lits_def)
  then show ?case using Cons by (cases s) auto
qed

lemma ms_Seq_lits:
  "ms ic n (Seq (lits l) r) (cap, s) =
     (if lit_prefix ic l s then ms ic n r (cap, drop (length l) s) else [])"
  by (simp add: ms_lits)

lemma lit_prefix_exact: "lit_prefix False l s \<longleftrightarrow> (\<exists>t. s = l @ t)"
proof (induction l arbitrary: s)
  case Nil
  then show ?case by simp
next
  case (Cons c l)
  then show ?case by (cases s) auto
qed

lemma lit_prefix_nocase:
  "lit_prefix True l s \<longleftrightarrow> (\<exists>w t. s = w @ t \<and> length w = length l \<and> lower w = lower l)"
proof (induction l arbitrary: s)
  case Nil
  then show ?case by (simp add: lower_def)
next
  case (Cons c l)
  show ?case
  proof (cases s)
    case Nil
    then show ?thesis by simp
  next
    case (Cons x s')
    show ?thesis
    proof
      assume "lit_prefix True (c # l) s"
      then obtain w t where "s' = w @ t" "length w = length l" "lower w = lower l"
        "lower_char x = lower_char c"
        using Cons Cons.IH[of s'] by auto
      then have "s = (x # w) @ t \<and> length (x # w) = length (c # l) \<and>
          lower (x # w) = lower (c # l)"
        using Cons by (simp add: lower_def)
      then show "\<exists>w t. s = w @ t \<and> length w = length (c # l) \<and> lower w = lower (c # l)"
        by blast
    next
      assume "\<exists>w t. s = w @ t \<and> length w = length (c # l) \<and> lower w = lower (c # l)"
      then obtain w t where w: "s = w @ t" "length w = length (c # l)"
        "lower w = lower (c # l)" by blast
      then obtain w' where w': "w = x # w'" using Cons by (cases w) auto
      with w Cons have "s' = w' @ t" "length w' = length l" "lower w' = lower l"
        "lower_char x = lower_char c"
        by (auto simp: lower_def)
      then show "lit_prefix True (c # l) s" using Cons Cons.IH[of s'] by auto
    qed
  qed
qed

section \<open>Search and substitution\<close>

lemma search_from_None:
  "search_from ic n r i s = None \<longleftrightarrow> (\<forall>k\<le>length s. ms ic n r (None, drop k s) = [])"
proof (induction s arbitrary: i)
  case Nil
  then show ?case by (subst search_from.simps) (auto split: list.splits)
next
  case (Cons a s)
  have "(\<forall>k\<le>length (a # s). ms ic n r (None, drop k (a # s)) = []) \<longleftrightarrow>
      ms ic n r (None, a # s) = [] \<and> (\<forall>k\<le>length s. ms ic n r (None, drop k s) = [])"
    (is "?L \<longleftrightarrow> ?R")
  proof
    assume L: ?L
    have "ms ic n r (None, drop 0 (a # s)) = []"
      using L by blast
    moreover have "\<forall>k\<le>length s. ms ic n r (None, drop k s) = []"
    proof (intro allI impI)
      fix k assume "k \<le> length s"
      then have "Suc k \<le> length (a # s)" by simp
      from L[rule_format, OF this] show "ms ic n r (None, drop k s) = []" by simp
    qed
    ultimately show ?R by simp
  next
    assume R: ?R
    show ?L
    proof (intro allI impI)
      fix k assume k: "k \<le> length (a # s)"
      show "ms ic n r (None, drop k (a # s)) = []"
      proof (cases k)
        case 0
        then show ?thesis using R by simp
      next
        case (Suc j)
        then have "j \<le> length s" using k by simp
        then show ?thesis using R Suc by simp
      qed
    qed
  qed
  then show ?case using Cons[of "Suc i"]
    by (subst search_from.simps) (auto split: list.splits)
qed

lemma search_from_skip:
  assumes "ms ic n r (None, x # s) = []"
  shows "search_from ic n r i (x # s) = search_from ic n r (Suc i) s"
  using assms by (subst search_from.simps) simp

lemma search_from_hit:
  assumes "ms ic n r (None, s) = (cap, s') # rest"
  shows "search_from ic n r i s =
           Some \<lparr>start = i, group0 = take (length s - length s') s, group1 = cap\<rparr>"
  using assms by (subst search_from.simps) simp

lemma sub_from_skip:
  assumes "ms ic n r (None, x # s) = []"
  shows "sub_from ic n r (x # s) = x # sub_from ic n r s"
  using assms by (subst sub_from.simps) simp

lemma sub_from_Nil: "ms ic n r (None, []) = [] \<Longrightarrow> sub_from ic n r [] = []"
  by (subst sub_from.simps) simp

lemma sub_from_hit:
  assumes "ms ic n r (None, s) = (cap, s') # rest" and "length s' < length s"
  shows "sub_from ic n r s = sub_from ic n r s'"
  using assms by (subst sub_from.simps) simp

lemma sub_from_Bos_short: "length s < n \<Longrightarrow> sub_from ic n (Seq Bos r) s = s"
proof (induction s)
  case Nil
  then show ?case by (simp add: sub_from_Nil)
next
  case (Cons a s)
  then show ?case by (simp add: sub_from_skip)
qed

section \<open>Whitespace at the ends\<close>

lemma dropWhile_id: "s \<noteq> [] \<Longrightarrow> \<not> p (hd s) \<Longrightarrow> dropWhile p s = s"
  by (cases s) auto

lemma strip_id:
  assumes "s \<noteq> []" and "\<not> isspace (hd s)" and "\<not> isspace (last s)"
  shows "strip s = s"
proof -
  have "dropWhile isspace (rev s) = rev s"
    using assms by (intro dropWhile_id) (auto simp: hd_rev)
  then show ?thesis
    using assms by (simp add: strip_def lstrip_def rstrip_def dropWhile_id)
qed

lemma not_space_braces: "\<not> isspace (CHR ''{'')" "\<not> isspace (CHR ''}'')" "\<not> isspace (CHR 0x60)"
  by (simp_all add: isspace_def)

section \<open>The brace span\<close>

lemma ms_Seq_Star_Nil: "ms ic n (Seq (Star c) r) (cap, []) = ms ic n r (cap, [])"
  by simp

lemma ms_Seq_Star_Cons:
  "ms ic n (Seq (Star c) r) (cap, x # xs) =
     (if cls_match ic c x then ms ic n (Seq (Star c) r) (cap, xs) @ ms ic n r (cap, x # xs)
      else ms ic n r (cap, x # xs))"
  by simp


lemma brace_tail_Nil: "ms False n brace_tail (None, []) = []"
  by (simp add: brace_tail_def)

lemma brace_tail_Cons:
  "ms False n brace_tail (None, x # xs) =
     ms False n brace_tail (None, xs) @ (if x = CHR ''}'' then [(None, xs)] else [])"
  unfolding brace_tail_def by (subst ms_Seq_Star_Cons) simp

lemma brace_tail_none: "CHR ''}'' \<notin> set xs \<Longrightarrow> ms False n brace_tail (None, xs) = []"
  by (induction xs) (auto simp: brace_tail_Nil brace_tail_Cons)

lemma brace_tail_hd:
  "CHR ''}'' \<notin> set post \<Longrightarrow>
     \<exists>rest. ms False n brace_tail (None, mid @ CHR ''}'' # post) = (None, post) # rest"
proof (induction mid)
  case Nil
  then show ?case by (simp add: brace_tail_Cons brace_tail_none)
next
  case (Cons a mid)
  then obtain rest where "ms False n brace_tail (None, mid @ CHR ''}'' # post) = (None, post) # rest"
    by blast
  then show ?case by (simp add: brace_tail_Cons)
qed

lemma ms_brace:
  "ms False n brace_rx (None, s) =
     (case s of [] \<Rightarrow> [] | x # xs \<Rightarrow> if x = CHR ''{'' then ms False n brace_tail (None, xs) else [])"
  unfolding brace_rx_def brace_tail_def by (subst ms_Seq_Atom) (simp split: list.splits)

lemma brace_search_hit:
  assumes "CHR ''{'' \<notin> set pre" and "CHR ''}'' \<notin> set post"
  shows "search_from False n brace_rx i (pre @ CHR ''{'' # mid @ CHR ''}'' # post) =
     Some \<lparr>start = i + length pre, group0 = CHR ''{'' # mid @ [CHR ''}''], group1 = None\<rparr>"
  using assms(1)
proof (induction pre arbitrary: i)
  case Nil
  obtain rest where "ms False n brace_tail (None, mid @ CHR ''}'' # post) = (None, post) # rest"
    using brace_tail_hd[OF assms(2)] by blast
  then have "ms False n brace_rx (None, CHR ''{'' # mid @ CHR ''}'' # post) = (None, post) # rest"
    by (simp add: ms_brace)
  from search_from_hit[OF this] show ?case by simp
next
  case (Cons a pre)
  then have "ms False n brace_rx (None, a # pre @ CHR ''{'' # mid @ CHR ''}'' # post) = []"
    by (auto simp: ms_brace)
  from search_from_skip[OF this] Cons show ?case by simp
qed

lemma brace_search_none:
  assumes "\<not> (\<exists>pre mid post. t = pre @ CHR ''{'' # mid @ CHR ''}'' # post)"
  shows "search_from False n brace_rx i t = None"
proof -
  have "ms False n brace_rx (None, drop k t) = []" for k
  proof (cases "drop k t")
    case Nil
    then show ?thesis by (simp add: ms_brace)
  next
    case (Cons x xs)
    show ?thesis
    proof (cases "x = CHR ''{''")
      case False
      then show ?thesis using Cons by (simp add: ms_brace)
    next
      case True
      have "CHR ''}'' \<notin> set xs"
      proof
        assume "CHR ''}'' \<in> set xs"
        then obtain mid post where "xs = mid @ CHR ''}'' # post"
          by (auto simp: in_set_conv_decomp)
        then have "t = take k t @ CHR ''{'' # mid @ CHR ''}'' # post"
          using Cons True by (metis append_take_drop_id)
        then show False using assms by blast
      qed
      then show ?thesis using Cons True by (simp add: ms_brace brace_tail_none)
    qed
  qed
  then show ?thesis by (simp add: search_from_None)
qed

text \<open>
  Claim C5. When the cleaned text has an opening brace that is followed somewhere by a
  closing brace, the candidate is the text from its first opening brace to its last
  closing brace (\<open>pre\<close> has no opening brace, \<open>post\<close> no closing brace); when it has no
  such pair, the candidate is the whole cleaned text.
\<close>

theorem brace_span_candidate:
  "(t = pre @ [CHR ''{''] @ mid @ [CHR ''}''] @ post \<and> CHR ''{'' \<notin> set pre \<and>
      CHR ''}'' \<notin> set post \<longrightarrow> json_candidate t = [CHR ''{''] @ mid @ [CHR ''}'']) \<and>
   (\<not> (\<exists>pre mid post. t = pre @ [CHR ''{''] @ mid @ [CHR ''}''] @ post) \<longrightarrow>
      json_candidate t = t)"
proof (intro conjI impI)
  assume a: "t = pre @ [CHR ''{''] @ mid @ [CHR ''}''] @ post \<and> CHR ''{'' \<notin> set pre \<and>
      CHR ''}'' \<notin> set post"
  then have "re_search False brace_rx t =
      Some \<lparr>start = 0 + length pre, group0 = CHR ''{'' # mid @ [CHR ''}''], group1 = None\<rparr>"
    unfolding re_search_def using brace_search_hit[of pre post "length t" 0 mid] by simp
  moreover have "strip (CHR ''{'' # mid @ [CHR ''}'']) = CHR ''{'' # mid @ [CHR ''}'']"
    by (rule strip_id) (simp_all add: not_space_braces)
  ultimately show "json_candidate t = [CHR ''{''] @ mid @ [CHR ''}'']"
    by (simp add: json_candidate_def)
next
  assume "\<not> (\<exists>pre mid post. t = pre @ [CHR ''{''] @ mid @ [CHR ''}''] @ post)"
  then have "re_search False brace_rx t = None"
    unfolding re_search_def using brace_search_none[of t "length t" 0] by simp
  then show "json_candidate t = t"
    by (simp add: json_candidate_def)
qed

lemma brace_span_canonical:
  assumes "t = pre @ [CHR ''{''] @ mid @ [CHR ''}''] @ post"
  shows "\<exists>pre' mid' post'. t = pre' @ [CHR ''{''] @ mid' @ [CHR ''}''] @ post' \<and>
           CHR ''{'' \<notin> set pre' \<and> CHR ''}'' \<notin> set post'"
proof -
  have "CHR ''{'' \<in> set t" using assms by simp
  then obtain pre' r where t1: "t = pre' @ CHR ''{'' # r" "CHR ''{'' \<notin> set pre'"
    by (auto dest: split_list_first)
  have "CHR ''}'' \<in> set r"
  proof -
    have "length pre' \<le> length pre"
    proof (rule ccontr)
      assume "\<not> length pre' \<le> length pre"
      then have "length pre < length pre'" by simp
      then have "pre' ! length pre = t ! length pre" using t1 by (simp add: nth_append)
      also have "\<dots> = CHR ''{''" using assms by (simp add: nth_append)
      finally show False using t1(2) \<open>length pre < length pre'\<close> by (metis nth_mem)
    qed
    define j where "j = length pre + 1 + length mid"
    have tj: "t ! j = CHR ''}''" and jt: "j < length t"
      using assms by (simp_all add: j_def nth_append)
    have jp: "Suc (length pre') \<le> j"
      using \<open>length pre' \<le> length pre\<close> by (simp add: j_def)
    have "t ! j = r ! (j - Suc (length pre'))"
      using jp by (subst t1(1)) (simp add: nth_append nth_Cons')
    moreover have "j - Suc (length pre') < length r"
      using jt jp by (subst (asm) t1(1)) simp
    ultimately show ?thesis
      using tj by (metis nth_mem)
  qed
  then obtain mid' post' where "r = mid' @ CHR ''}'' # post'" "CHR ''}'' \<notin> set post'"
    by (auto dest: split_list_last)
  then show ?thesis using t1 by auto
qed

section \<open>Stripping\<close>

lemma strip_surround:
  assumes "\<forall>c\<in>set a. isspace c" and "\<forall>c\<in>set b. isspace c"
    and "x \<noteq> []" and "\<not> isspace (hd x)" and "\<not> isspace (last x)"
  shows "strip (a @ x @ b) = x"
proof -
  have "dropWhile isspace (a @ x @ b) = dropWhile isspace (x @ b)"
    by (rule dropWhile_append2) (use assms(1) in auto)
  also have "\<dots> = x @ b"
    using assms(3,4) by (intro dropWhile_id) auto
  finally have 1: "dropWhile isspace (a @ x @ b) = x @ b" .
  have "dropWhile isspace (rev b @ rev x) = dropWhile isspace (rev x)"
    by (rule dropWhile_append2) (use assms(2) in auto)
  also have "\<dots> = rev x"
    using assms(3,5) by (intro dropWhile_id) (auto simp: hd_rev)
  finally show ?thesis
    using 1 by (simp add: strip_def lstrip_def rstrip_def)
qed

lemma strip_decomp:
  "\<exists>a b. s = a @ strip s @ b \<and> (\<forall>c\<in>set a. isspace c) \<and> (\<forall>c\<in>set b. isspace c)"
proof -
  define u where "u = dropWhile isspace s"
  have s: "s = takeWhile isspace s @ u" by (simp add: u_def)
  have "rev u = takeWhile isspace (rev u) @ dropWhile isspace (rev u)" by simp
  then have "u = rev (dropWhile isspace (rev u)) @ rev (takeWhile isspace (rev u))"
    by (metis rev_append rev_rev_ident)
  then have "s = takeWhile isspace s @ strip s @ rev (takeWhile isspace (rev u))"
    using s by (simp add: strip_def lstrip_def rstrip_def u_def)
  moreover have "\<forall>c\<in>set (takeWhile isspace s). isspace c"
    by (auto dest: set_takeWhileD)
  moreover have "\<forall>c\<in>set (rev (takeWhile isspace (rev u))). isspace c"
    by (auto dest: set_takeWhileD)
  ultimately show ?thesis by blast
qed

section \<open>The opening fence\<close>

lemma lower_char_backquote: "lower_char (CHR 0x60) = CHR 0x60"
  by (simp add: lower_char_def)

lemma lower_char_brace: "lower_char (CHR ''{'') = CHR ''{''"
  by (simp add: lower_char_def)

lemma cls_match_Space: "cls_match ic Space = isspace"
  by (rule ext) simp

lemma fence_open_tagged:
  "\<exists>tl. ms True (length (''```json'' @ rest)) fence_open_rx (None, ''```json'' @ rest) =
     (None, dropWhile isspace rest) # tl"
proof -
  have "ms True (length (''```json'' @ rest)) fence_open_rx (None, ''```json'' @ rest) =
      ms True (length (''```json'' @ rest)) (Seq (Opt (lits ''json'')) (Star Space))
        (None, ''json'' @ rest)"
    unfolding fence_open_rx_def by (simp only: ms_Seq_Bos ms_Seq_lits) simp
  also have "\<dots> = map (Pair None) (greedy isspace rest) @
      map (Pair None) (greedy isspace (''json'' @ rest))"
    by (simp add: ms_lits cls_match_Space isspace_def)
  finally show ?thesis
    using greedy_nonempty[of isspace rest] hd_greedy[of isspace rest]
    by (cases "greedy isspace rest") auto
qed

lemma sub_open_tagged:
  "re_sub_empty True fence_open_rx (''```json'' @ rest) = dropWhile isspace rest"
proof -
  obtain tl where "ms True (length (''```json'' @ rest)) fence_open_rx (None, ''```json'' @ rest) =
     (None, dropWhile isspace rest) # tl"
    using fence_open_tagged by blast
  moreover have l: "length (dropWhile isspace rest) < length (''```json'' @ rest)"
    using length_dropWhile_le[of isspace rest] by simp
  ultimately have "re_sub_empty True fence_open_rx (''```json'' @ rest) =
      sub_from True (length (''```json'' @ rest)) fence_open_rx (dropWhile isspace rest)"
    unfolding re_sub_empty_def by (rule sub_from_hit)
  also have "\<dots> = dropWhile isspace rest"
    unfolding fence_open_rx_def using l by (rule sub_from_Bos_short)
  finally show ?thesis .
qed

lemma sub_open_plain:
  assumes "s \<noteq> []" and "lower_char (hd s) \<noteq> CHR 0x60"
  shows "re_sub_empty True fence_open_rx s = s"
proof -
  obtain x xs where s: "s = x # xs" using assms(1) by (cases s) auto
  have "ms True (length s) fence_open_rx (None, x # xs) = []"
    unfolding fence_open_rx_def using assms(2) s
    by (simp only: ms_Seq_Bos ms_Seq_lits) (simp add: lower_char_backquote)
  then have "sub_from True (length s) fence_open_rx (x # xs) =
      x # sub_from True (length s) fence_open_rx xs"
    by (rule sub_from_skip)
  moreover have "sub_from True (length s) fence_open_rx xs = xs"
    unfolding fence_open_rx_def by (rule sub_from_Bos_short) (simp add: s)
  ultimately show ?thesis by (simp add: re_sub_empty_def s)
qed

section \<open>The closing fence\<close>

lemma fence_close_ms:
  "ms False n fence_close_rx (None, s) =
     (let s' = dropWhile isspace s
      in if s' = ''```'' then [(None, [])]
         else if s' = ''```'' @ [CHR 0x0A] then [(None, [CHR 0x0A])] else [])"
proof -
  have "ms False n (Seq (lits ''```'') Eos) (None, x # xs) = []" if "isspace x" for x xs
    using that not_space_braces(3) by (auto simp: ms_lits)
  then have "ms False n fence_close_rx (None, s) =
      ms False n (Seq (lits ''```'') Eos) (None, dropWhile isspace s)"
    unfolding fence_close_rx_def by (subst ms_Seq_Star) (simp_all add: cls_match_Space)
  also have "\<dots> = (let s' = dropWhile isspace s
      in if s' = ''```'' then [(None, [])]
         else if s' = ''```'' @ [CHR 0x0A] then [(None, [CHR 0x0A])] else [])"
    by (auto simp: ms_lits lit_prefix_exact Let_def)
  finally show ?thesis .
qed

lemma sub_close_plain:
  assumes "u \<noteq> [] \<longrightarrow> \<not> isspace (last u) \<and> last u \<noteq> CHR 0x60"
  shows "sub_from False n fence_close_rx u = u"
  using assms
proof (induction u)
  case Nil
  show ?case by (rule sub_from_Nil) (simp add: fence_close_ms)
next
  case (Cons x u)
  define s' where "s' = dropWhile isspace (x # u)"
  have "\<exists>c\<in>set (x # u). \<not> isspace c"
    using Cons.prems by (metis last_in_set list.distinct(1))
  then have ne: "s' \<noteq> []" by (auto simp: s'_def dropWhile_eq_Nil_conv)
  then have "last s' = last (x # u)"
    unfolding s'_def by (metis append_take_drop_id dropWhile_eq_drop last_appendR)
  then have "s' \<noteq> ''```'' \<and> s' \<noteq> ''```'' @ [CHR 0x0A]"
    using Cons.prems by (auto simp: isspace_def)
  then have "ms False n fence_close_rx (None, x # u) = []"
    by (simp add: fence_close_ms s'_def Let_def)
  then have "sub_from False n fence_close_rx (x # u) = x # sub_from False n fence_close_rx u"
    by (rule sub_from_skip)
  moreover have "sub_from False n fence_close_rx u = u"
    using Cons by (cases u) auto
  ultimately show ?case by simp
qed

lemma sub_close_fenced:
  assumes "u \<noteq> [] \<longrightarrow> \<not> isspace (last u)" and "\<forall>c\<in>set w. isspace c"
  shows "sub_from False n fence_close_rx (u @ w @ ''```'') = u"
  using assms(1)
proof (induction u)
  case Nil
  have "dropWhile isspace (w @ ''```'') = dropWhile isspace ''```''"
    by (rule dropWhile_append2) (use assms(2) in auto)
  then have "dropWhile isspace (w @ ''```'') = ''```''"
    by (simp add: not_space_braces)
  then have "ms False n fence_close_rx (None, w @ ''```'') = (None, []) # []"
    by (simp add: fence_close_ms)
  then have "sub_from False n fence_close_rx (w @ ''```'') = sub_from False n fence_close_rx []"
    by (rule sub_from_hit) simp
  also have "\<dots> = []" by (rule sub_from_Nil) (simp add: fence_close_ms)
  finally show ?case by simp
next
  case (Cons x u)
  define s' where "s' = dropWhile isspace ((x # u) @ w @ ''```'')"
  obtain v c where xu: "x # u = v @ [c]" "\<not> isspace c"
    using Cons.prems by (metis append_butlast_last_id list.distinct(1))
  have "s' = dropWhile isspace (v @ [c]) @ w @ ''```''"
    unfolding s'_def xu(1)[symmetric] using xu
    by (metis dropWhile_append1 last_in_set last_snoc snoc_eq_iff_butlast)
  moreover have "dropWhile isspace (v @ [c]) \<noteq> []"
    using xu(2) by (auto simp: dropWhile_eq_Nil_conv)
  ultimately have "4 \<le> length s' \<and> last s' = CHR 0x60"
    by (cases "dropWhile isspace (v @ [c])") auto
  then have "s' \<noteq> ''```'' \<and> s' \<noteq> ''```'' @ [CHR 0x0A]"
    by auto
  then have "ms False n fence_close_rx (None, x # u @ w @ ''```'') = []"
    by (simp add: fence_close_ms s'_def Let_def)
  then have "sub_from False n fence_close_rx (x # u @ w @ ''```'') =
      x # sub_from False n fence_close_rx (u @ w @ ''```'')"
    by (rule sub_from_skip)
  moreover have "sub_from False n fence_close_rx (u @ w @ ''```'') = u"
    using Cons by (cases u) auto
  ultimately show ?case by simp
qed

lemma clean_reply_bare:
  assumes "strip J = CHR ''{'' # inner @ [CHR ''}'']"
  shows "clean_reply (Some J) = strip J"
proof -
  let ?s = "strip J"
  have 1: "re_sub_empty True fence_open_rx ?s = ?s"
    by (rule sub_open_plain) (simp_all add: assms lower_char_brace)
  have 2: "re_sub_empty False fence_close_rx ?s = ?s"
    unfolding re_sub_empty_def by (rule sub_close_plain) (simp add: assms not_space_braces)
  have 3: "\<not> startswith (lower ?s) ''json''"
    by (simp add: assms startswith_def lower_def lower_char_brace)
  show ?thesis
    using 1 2 3 by (simp add: clean_reply_def Let_def)
qed

lemma clean_reply_fenced:
  assumes "\<forall>c\<in>set a. isspace c" and "\<forall>c\<in>set b. isspace c"
    and "strip J = CHR ''{'' # inner @ [CHR ''}'']"
  shows "clean_reply (Some (a @ ''```json'' @ [CHR 0x0A] @ J @ [CHR 0x0A] @ ''```'' @ b)) = strip J"
proof -
  define s where "s = strip J"
  have s: "s = CHR ''{'' # inner @ [CHR ''}'']"
    using assms(3) by (simp add: s_def)
  obtain a' b' where J: "J = a' @ s @ b'" and a': "\<forall>c\<in>set a'. isspace c"
    and b': "\<forall>c\<in>set b'. isspace c"
    using strip_decomp[of J] unfolding s_def by blast
  define X where "X = ''```json'' @ [CHR 0x0A] @ J @ [CHR 0x0A] @ ''```''"
  have nl: "isspace (CHR 0x0A)" by (simp add: isspace_def)
  have "strip (a @ X @ b) = X"
    by (rule strip_surround) (use assms(1,2) in \<open>simp_all add: X_def not_space_braces\<close>)
  then have 0: "strip (a @ ''```json'' @ [CHR 0x0A] @ J @ [CHR 0x0A] @ ''```'' @ b) = X"
    by (simp add: X_def)
  have d: "dropWhile isspace ([CHR 0x0A] @ J @ [CHR 0x0A] @ ''```'') =
      s @ (b' @ [CHR 0x0A]) @ ''```''"
  proof -
    have "[CHR 0x0A] @ J @ [CHR 0x0A] @ ''```'' =
        (CHR 0x0A # a') @ (s @ b' @ [CHR 0x0A] @ ''```'')"
      by (simp add: J)
    moreover have "dropWhile isspace ((CHR 0x0A # a') @ (s @ b' @ [CHR 0x0A] @ ''```'')) =
        dropWhile isspace (s @ b' @ [CHR 0x0A] @ ''```'')"
      by (rule dropWhile_append2) (use a' nl in auto)
    moreover have "dropWhile isspace (s @ b' @ [CHR 0x0A] @ ''```'') =
        s @ b' @ [CHR 0x0A] @ ''```''"
      by (rule dropWhile_id) (simp_all add: s not_space_braces)
    ultimately show ?thesis by simp
  qed
  have "re_sub_empty True fence_open_rx (''```json'' @ ([CHR 0x0A] @ J @ [CHR 0x0A] @ ''```'')) =
      dropWhile isspace ([CHR 0x0A] @ J @ [CHR 0x0A] @ ''```'')"
    by (rule sub_open_tagged)
  then have 1: "re_sub_empty True fence_open_rx X = s @ (b' @ [CHR 0x0A]) @ ''```''"
    unfolding d by (simp add: X_def)
  have 2: "re_sub_empty False fence_close_rx (s @ (b' @ [CHR 0x0A]) @ ''```'') = s"
    unfolding re_sub_empty_def
    by (rule sub_close_fenced) (use b' nl in \<open>auto simp: s not_space_braces\<close>)
  have 3: "\<not> startswith (lower s) ''json''"
    by (simp add: s startswith_def lower_def lower_char_brace)
  have "clean_reply (Some (a @ ''```json'' @ [CHR 0x0A] @ J @ [CHR 0x0A] @ ''```'' @ b)) = s"
    unfolding clean_reply_def option.case 0 Let_def 1 2 using 3 by simp
  then show ?thesis by (simp add: s_def)
qed

lemma json_candidate_object:
  assumes "s = CHR ''{'' # inner @ [CHR ''}'']"
  shows "json_candidate s = s"
  using brace_span_candidate[of s "[]" inner "[]"] assms by simp

text \<open>
  Claim C3. Let \<open>J\<close> be a text that, stripped of surrounding whitespace, begins with an
  opening and ends with a closing brace, as every JSON object text does. The reply that
  wraps \<open>J\<close> in a \<^verbatim>\<open>json\<close> code fence, with any whitespace \<open>a\<close> and \<open>b\<close> around the fence, is
  normalized exactly as the bare \<open>J\<close>: in both cases the text handed to \<^verbatim>\<open>json.loads\<close> is
  the stripped \<open>J\<close>, so the results agree for every \<^verbatim>\<open>json.loads\<close>.
\<close>

theorem fenced_reply_same_as_bare:
  assumes "\<forall>c\<in>set a. isspace c" and "\<forall>c\<in>set b. isspace c"
    and "strip J = CHR ''{'' # inner @ [CHR ''}'']"
    and "fenced = a @ ''```json'' @ [CHR 0x0A] @ J @ [CHR 0x0A] @ ''```'' @ b"
  shows "json_candidate (clean_reply (Some fenced)) = strip J \<and>
         json_candidate (clean_reply (Some J)) = strip J \<and>
         normalize_reply loads (Some fenced) = normalize_reply loads (Some J)"
  using clean_reply_fenced[OF assms(1-3)] clean_reply_bare[OF assms(3)]
    json_candidate_object[OF assms(3)] assms(4)
  by (simp add: normalize_reply_def)

lemma example_strip:
  \<open>strip ''{"project_name":"X","tasks":[]}'' =
     CHR ''{'' # ''"project_name":"X","tasks":[]'' @ [CHR ''}'']\<close>
  by code_simp

theorem fenced_reply_same_as_bare_witness:
  \<open>list_all isspace ''  '' \<and>
   json_candidate (clean_reply (Some (''  ```json'' @ [CHR 0x0A] @
      ''{"project_name":"X","tasks":[]}'' @ [CHR 0x0A] @ ''```  ''))) =
     ''{"project_name":"X","tasks":[]}'' \<and>
   normalize_reply example_loads (Some (''  ```json'' @ [CHR 0x0A] @
      ''{"project_name":"X","tasks":[]}'' @ [CHR 0x0A] @ ''```  '')) =
     JObj [(''project_name'', JStr ''X''), (''tasks'', JArr [])] \<and>
   normalize_reply example_loads (Some ''{"project_name":"X","tasks":[]}'') =
     JObj [(''project_name'', JStr ''X''), (''tasks'', JArr [])]\<close>
proof -
  have w: "\<forall>c\<in>set ''  ''. isspace c" by (simp add: isspace_def)
  have f: \<open>''  ```json'' @ [CHR 0x0A] @ ''{"project_name":"X","tasks":[]}'' @ [CHR 0x0A] @ ''```  '' =
      ''  '' @ ''```json'' @ [CHR 0x0A] @ ''{"project_name":"X","tasks":[]}'' @ [CHR 0x0A] @
      ''```'' @ ''  ''\<close>
    by simp
  from fenced_reply_same_as_bare[OF w w example_strip f, of example_loads]
  show ?thesis using w by (simp add: example_strip normalize_reply_def example_loads_def)
qed

theorem brace_span_candidate_witness:
  "json_candidate ''note {a} and {b} end'' = ''{a} and {b}'' \<and>
   json_candidate ''no braces'' = ''no braces''"
proof -
  have 1: "''note {a} and {b} end'' = ''note '' @ [CHR ''{''] @ ''a} and {b'' @ [CHR ''}''] @ '' end'' \<and>
      CHR ''{'' \<notin> set ''note '' \<and> CHR ''}'' \<notin> set '' end''"
    by simp
  have 2: "\<not> (\<exists>pre mid post. ''no braces'' = pre @ [CHR ''{''] @ mid @ [CHR ''}''] @ post)"
  proof clarify
    fix pre mid post
    assume "''no braces'' = pre @ [CHR ''{''] @ mid @ [CHR ''}''] @ post"
    then have "set ''no braces'' = set (pre @ [CHR ''{''] @ mid @ [CHR ''}''] @ post)"
      by (rule arg_cong)
    then have "CHR ''{'' \<in> set ''no braces''" by simp
    then show False by simp
  qed
  have a: "json_candidate ''note {a} and {b} end'' = [CHR ''{''] @ ''a} and {b'' @ [CHR ''}'']"
    by (rule brace_span_candidate[of "''note {a} and {b} end''" "''note ''" "''a} and {b''"
          "'' end''", THEN conjunct1, rule_format, OF 1])
  have b: "json_candidate ''no braces'' = ''no braces''"
    by (rule brace_span_candidate[of "''no braces''" "[]" "[]" "[]", THEN conjunct2,
          rule_format, OF 2])
  show ?thesis using a b by simp
qed

section \<open>Membership in the list of matcher states\<close>

lemma in_ms_lits:
  "(cap', s') \<in> set (ms ic n (lits l) (cap, s)) \<longleftrightarrow>
     cap' = cap \<and> lit_prefix ic l s \<and> s' = drop (length l) s"
  by (auto simp: ms_lits)

lemma in_ms_Atom:
  "(cap', s') \<in> set (ms ic n (Atom c) (cap, s)) \<longleftrightarrow>
     cap' = cap \<and> (\<exists>x. s = x # s' \<and> cls_match ic c x)"
  by (auto split: list.splits)

lemma in_ms_Star:
  "(cap', s') \<in> set (ms ic n (Star c) (cap, s)) \<longleftrightarrow>
     cap' = cap \<and> (\<exists>w. s = w @ s' \<and> list_all (cls_match ic c) w)"
  by (auto simp: set_greedy list_all_iff)

lemma in_ms_Plus:
  "(cap', s') \<in> set (ms ic n (Plus c) (cap, s)) \<longleftrightarrow>
     cap' = cap \<and> (\<exists>w. s = w @ s' \<and> w \<noteq> [] \<and> list_all (cls_match ic c) w)"
  by (auto simp: set_greedy1 list_all_iff)

lemma in_ms_Seq:
  "st'' \<in> set (ms ic n (Seq a b) st) \<longleftrightarrow>
     (\<exists>c1 s1. (c1, s1) \<in> set (ms ic n a st) \<and> st'' \<in> set (ms ic n b (c1, s1)))"
  by auto

lemma in_ms_Opt:
  "st' \<in> set (ms ic n (Opt a) st) \<longleftrightarrow> st' \<in> set (ms ic n a st) \<or> st' = st"
  by auto

lemma in_ms_Grp:
  "(cap', s') \<in> set (ms ic n (Grp a) (cap, s)) \<longleftrightarrow>
     (\<exists>c0. (c0, s') \<in> set (ms ic n a (cap, s))) \<and> cap' = Some (take (length s - length s') s)"
proof
  assume "(cap', s') \<in> set (ms ic n (Grp a) (cap, s))"
  then obtain c0 s0 where "(c0, s0) \<in> set (ms ic n a (cap, s))"
    and "(cap', s') = (Some (take (length s - length s0) s), s0)"
    by auto
  then show "(\<exists>c0. (c0, s') \<in> set (ms ic n a (cap, s))) \<and>
      cap' = Some (take (length s - length s') s)"
    by auto
next
  assume "(\<exists>c0. (c0, s') \<in> set (ms ic n a (cap, s))) \<and>
      cap' = Some (take (length s - length s') s)"
  then obtain c0 where m: "(c0, s') \<in> set (ms ic n a (cap, s))"
    and c: "cap' = Some (take (length s - length s') s)"
    by blast
  have "(\<lambda>(cap', s'). (Some (take (length s - length s') s), s')) (c0, s') \<in>
      (\<lambda>(cap', s'). (Some (take (length s - length s') s), s')) ` set (ms ic n a (cap, s))"
    using m by (rule imageI)
  then show "(cap', s') \<in> set (ms ic n (Grp a) (cap, s))"
    using c by simp
qed

lemma cls_match_Digit: "cls_match ic Digit = isdigit"
  by (rule ext) simp

lemma lower_char_dot: "lower_char x = CHR ''.'' \<longleftrightarrow> x = CHR ''.''"
proof -
  have "(of_char x :: nat) < 256" by simp
  then show ?thesis
    by (auto simp: lower_char_def Let_def char_of_eq_iff take_bit_eq_mod)
qed

lemma lower_char_dot_self: "lower_char (CHR ''.'') = CHR ''.''"
  by (simp add: lower_char_def)

section \<open>The number of the first pattern\<close>

lemma in_ms_frac:
  "(cap', t') \<in> set (ms True n (Seq (Atom (Lit (CHR ''.''))) (Plus Digit)) (cap, t)) \<longleftrightarrow>
     cap' = cap \<and> (\<exists>fp. fp \<noteq> [] \<and> all_digits fp \<and> t = ''.'' @ fp @ t')"
  (is "?L \<longleftrightarrow> ?R")
proof
  assume ?L
  then obtain c1 s1 where 1: "(c1, s1) \<in> set (ms True n (Atom (Lit (CHR ''.''))) (cap, t))"
    and 2: "(cap', t') \<in> set (ms True n (Plus Digit) (c1, s1))"
    unfolding in_ms_Seq by blast
  from 1 have c1: "c1 = cap" and t: "t = CHR ''.'' # s1"
    unfolding in_ms_Atom by (auto simp: lower_char_dot lower_char_dot_self)
  from 2 obtain fp where "cap' = c1" "s1 = fp @ t'" "fp \<noteq> []" "all_digits fp"
    unfolding in_ms_Plus cls_match_Digit all_digits_def by blast
  then show ?R using c1 t by auto
next
  assume ?R
  then obtain fp where c: "cap' = cap" and fp: "fp \<noteq> []" "all_digits fp"
    and t: "t = ''.'' @ fp @ t'"
    by blast
  have 1: "(cap, fp @ t') \<in> set (ms True n (Atom (Lit (CHR ''.''))) (cap, t))"
    unfolding in_ms_Atom using t by (simp add: lower_char_dot_self)
  have 2: "(cap', t') \<in> set (ms True n (Plus Digit) (cap, fp @ t'))"
    unfolding in_ms_Plus cls_match_Digit using c fp by (auto simp: all_digits_def)
  show ?L unfolding in_ms_Seq using 1 2 by blast
qed

lemma in_ms_number:
  "(cap', t') \<in> set (ms True n number_rx (cap, t)) \<longleftrightarrow>
     cap' = cap \<and>
     (\<exists>ip. ip \<noteq> [] \<and> all_digits ip \<and>
        (t = ip @ t' \<or> (\<exists>fp. fp \<noteq> [] \<and> all_digits fp \<and> t = ip @ ''.'' @ fp @ t')))"
  (is "?L \<longleftrightarrow> ?R")
proof
  assume ?L
  then obtain c1 s1 where 1: "(c1, s1) \<in> set (ms True n (Plus Digit) (cap, t))"
    and 2: "(cap', t') \<in>
      set (ms True n (Opt (Seq (Atom (Lit (CHR ''.''))) (Plus Digit))) (c1, s1))"
    unfolding number_rx_def in_ms_Seq by blast
  from 1 obtain ip where c1: "c1 = cap" and ip: "t = ip @ s1" "ip \<noteq> []" "all_digits ip"
    unfolding in_ms_Plus cls_match_Digit all_digits_def by blast
  from 2 consider "(cap', t') = (c1, s1)"
    | "(cap', t') \<in> set (ms True n (Seq (Atom (Lit (CHR ''.''))) (Plus Digit)) (c1, s1))"
    unfolding in_ms_Opt by blast
  then show ?R
  proof cases
    case 1
    then show ?thesis using c1 ip by auto
  next
    case 2
    then obtain fp where "cap' = c1" "fp \<noteq> []" "all_digits fp" "s1 = ''.'' @ fp @ t'"
      unfolding in_ms_frac by blast
    then show ?thesis using c1 ip by auto
  qed
next
  assume ?R
  then obtain ip where c: "cap' = cap" and ip: "ip \<noteq> []" "all_digits ip"
    and t: "t = ip @ t' \<or> (\<exists>fp. fp \<noteq> [] \<and> all_digits fp \<and> t = ip @ ''.'' @ fp @ t')"
    by blast
  from t show ?L
  proof
    assume t: "t = ip @ t'"
    have 1: "(cap, t') \<in> set (ms True n (Plus Digit) (cap, t))"
      unfolding in_ms_Plus cls_match_Digit using ip t by (auto simp: all_digits_def)
    have 2: "(cap', t') \<in>
        set (ms True n (Opt (Seq (Atom (Lit (CHR ''.''))) (Plus Digit))) (cap, t'))"
      unfolding in_ms_Opt using c by simp
    show ?L unfolding number_rx_def in_ms_Seq using 1 2 by blast
  next
    assume "\<exists>fp. fp \<noteq> [] \<and> all_digits fp \<and> t = ip @ ''.'' @ fp @ t'"
    then obtain fp where fp: "fp \<noteq> []" "all_digits fp" and t: "t = ip @ ''.'' @ fp @ t'"
      by blast
    have 1: "(cap, ''.'' @ fp @ t') \<in> set (ms True n (Plus Digit) (cap, t))"
      unfolding in_ms_Plus cls_match_Digit using ip t by (auto simp: all_digits_def)
    have "(cap', t') \<in>
        set (ms True n (Seq (Atom (Lit (CHR ''.''))) (Plus Digit)) (cap, ''.'' @ fp @ t'))"
      unfolding in_ms_frac using c fp by blast
    then have 2: "(cap', t') \<in>
        set (ms True n (Opt (Seq (Atom (Lit (CHR ''.''))) (Plus Digit))) (cap, ''.'' @ fp @ t'))"
      unfolding in_ms_Opt by blast
    show ?L unfolding number_rx_def in_ms_Seq using 1 2 by blast
  qed
qed

section \<open>The first retry pattern\<close>

lemma retry_in_rx_alt:
  "retry_in_rx =
     Seq (lits ''Please retry in'')
       (Seq (Star Space) (Seq (Grp number_rx) (Atom (Lit (CHR ''s'')))))"
  by (simp add: retry_in_rx_def number_rx_def)

lemma lower_please: "lower ''Please retry in'' = ''please retry in''"
  by (simp add: lower_def lower_char_def char_of_eq_iff)

lemma lower_char_s: "lower_char (CHR ''s'') = CHR ''s''"
  by (simp add: lower_char_def)

lemma lower_length: "length (lower s) = length s"
  by (simp add: lower_def)

lemma number_text_iff:
  "number_text g \<longleftrightarrow>
     (\<exists>ip. ip \<noteq> [] \<and> all_digits ip \<and>
        (g = ip \<or> (\<exists>fp. fp \<noteq> [] \<and> all_digits fp \<and> g = ip @ ''.'' @ fp)))"
  by (simp add: number_text_def)

lemma in_ms_number_text:
  "(cap', t') \<in> set (ms True n number_rx (cap, t)) \<longleftrightarrow>
     cap' = cap \<and> (\<exists>g. number_text g \<and> t = g @ t')"
  unfolding in_ms_number number_text_iff by (rule iffI; force)

lemma in_ms_retry_in:
  "(cap', s') \<in> set (ms True n retry_in_rx (None, s)) \<longleftrightarrow>
     (\<exists>g. cap' = Some g \<and> retry_in_here s g s')"
  (is "?L \<longleftrightarrow> ?R")
proof
  assume ?L
  then obtain c1 s1 c2 s2 c3 s3 where
    1: "(c1, s1) \<in> set (ms True n (lits ''Please retry in'') (None, s))" and
    2: "(c2, s2) \<in> set (ms True n (Star Space) (c1, s1))" and
    3: "(c3, s3) \<in> set (ms True n (Grp number_rx) (c2, s2))" and
    4: "(cap', s') \<in> set (ms True n (Atom (Lit (CHR ''s''))) (c3, s3))"
    unfolding retry_in_rx_alt in_ms_Seq by blast
  from 1 obtain lit where lit: "s = lit @ s1" "lower lit = ''please retry in''"
    unfolding in_ms_lits lit_prefix_nocase by (auto simp: lower_please)
  from 2 obtain ws where ws: "s1 = ws @ s2" "all_space ws"
    unfolding in_ms_Star cls_match_Space all_space_def by blast
  from 3 obtain g where g: "number_text g" "s2 = g @ s3" "c3 = Some (take (length s2 - length s3) s2)"
    unfolding in_ms_Grp in_ms_number_text by blast
  then have c3: "c3 = Some g" by simp
  from 4 obtain c where c: "cap' = c3" "s3 = c # s'" "lower_char c = CHR ''s''"
    unfolding in_ms_Atom by (auto simp: lower_char_s)
  have "retry_in_here s g s'"
    unfolding retry_in_here_def using lit ws g(1,2) c(2,3) by auto
  then show ?R using c(1) c3 by blast
next
  assume ?R
  then obtain g lit ws c where cap: "cap' = Some g" and s: "s = lit @ ws @ g @ c # s'"
    and lit: "lower lit = ''please retry in''" and ws: "all_space ws"
    and g: "number_text g" and c: "lower_char c = CHR ''s''"
    unfolding retry_in_here_def by blast
  have "length lit = length ''Please retry in''"
    using lit lower_length[of lit] by simp
  then have 1: "(None, ws @ g @ c # s') \<in> set (ms True n (lits ''Please retry in'') (None, s))"
    unfolding in_ms_lits lit_prefix_nocase using s lit by (auto simp: lower_please)
  have 2: "(None, g @ c # s') \<in> set (ms True n (Star Space) (None, ws @ g @ c # s'))"
    unfolding in_ms_Star cls_match_Space using ws by (auto simp: all_space_def)
  have "(None, c # s') \<in> set (ms True n number_rx (None, g @ c # s'))"
    unfolding in_ms_number_text using g by blast
  then have 3: "(Some g, c # s') \<in> set (ms True n (Grp number_rx) (None, g @ c # s'))"
    unfolding in_ms_Grp by auto
  have 4: "(cap', s') \<in> set (ms True n (Atom (Lit (CHR ''s''))) (Some g, c # s'))"
    unfolding in_ms_Atom using cap c by (simp add: lower_char_s)
  show ?L unfolding retry_in_rx_alt in_ms_Seq using 1 2 3 4 by blast
qed

section \<open>The second retry pattern\<close>

lemma not_brace_all:
  "list_all (cls_match False (NotLit (CHR ''}''))) mid \<longleftrightarrow> CHR ''}'' \<notin> set mid"
  by (induction mid) auto

lemma in_ms_retry_delay:
  "(cap', s') \<in> set (ms False n retry_delay_rx (None, s)) \<longleftrightarrow>
     (\<exists>g. cap' = Some g \<and> retry_delay_here s g s')"
  (is "?L \<longleftrightarrow> ?R")
proof
  assume ?L
  then obtain c1 s1 c2 s2 c3 s3 c4 s4 c5 s5 c6 s6 where
    1: "(c1, s1) \<in> set (ms False n (lits ''retry_delay'') (None, s))" and
    2: "(c2, s2) \<in> set (ms False n (Star Space) (c1, s1))" and
    3: "(c3, s3) \<in> set (ms False n (Atom (Lit (CHR ''{''))) (c2, s2))" and
    4: "(c4, s4) \<in> set (ms False n (Star (NotLit (CHR ''}''))) (c3, s3))" and
    5: "(c5, s5) \<in> set (ms False n (lits ''seconds:'') (c4, s4))" and
    6: "(c6, s6) \<in> set (ms False n (Star Space) (c5, s5))" and
    7: "(cap', s') \<in> set (ms False n (Grp (Plus Digit)) (c6, s6))"
    unfolding retry_delay_rx_def in_ms_Seq by blast
  from 1 have s: "s = ''retry_delay'' @ s1"
    unfolding in_ms_lits lit_prefix_exact by auto
  from 2 obtain ws where ws: "s1 = ws @ s2" "all_space ws"
    unfolding in_ms_Star cls_match_Space all_space_def by blast
  from 3 have s2: "s2 = ''{'' @ s3"
    unfolding in_ms_Atom by auto
  from 4 obtain mid where mid: "s3 = mid @ s4" "CHR ''}'' \<notin> set mid"
    unfolding in_ms_Star not_brace_all by blast
  from 5 have s4: "s4 = ''seconds:'' @ s5"
    unfolding in_ms_lits lit_prefix_exact by auto
  from 6 obtain ws' where ws': "s5 = ws' @ s6" "all_space ws'"
    unfolding in_ms_Star cls_match_Space all_space_def by blast
  from 7 obtain g where g: "s6 = g @ s'" "g \<noteq> []" "all_digits g"
    and cap: "cap' = Some (take (length s6 - length s') s6)"
    unfolding in_ms_Grp in_ms_Plus cls_match_Digit all_digits_def by blast
  from g(1) cap have "cap' = Some g" by simp
  moreover have "retry_delay_here s g s'"
    unfolding retry_delay_here_def
    using s ws s2 mid s4 ws' g by (intro exI[of _ ws] exI[of _ mid] exI[of _ ws']) simp
  ultimately show ?R by blast
next
  assume ?R
  then obtain g ws mid ws' where cap: "cap' = Some g"
    and s: "s = ''retry_delay'' @ ws @ ''{'' @ mid @ ''seconds:'' @ ws' @ g @ s'"
    and ws: "all_space ws" and mid: "CHR ''}'' \<notin> set mid" and ws': "all_space ws'"
    and g: "g \<noteq> []" "all_digits g"
    unfolding retry_delay_here_def by blast
  have 1: "(None, ws @ ''{'' @ mid @ ''seconds:'' @ ws' @ g @ s') \<in>
      set (ms False n (lits ''retry_delay'') (None, s))"
    unfolding in_ms_lits lit_prefix_exact using s by simp
  have 2: "(None, ''{'' @ mid @ ''seconds:'' @ ws' @ g @ s') \<in>
      set (ms False n (Star Space) (None, ws @ ''{'' @ mid @ ''seconds:'' @ ws' @ g @ s'))"
    unfolding in_ms_Star cls_match_Space using ws by (auto simp: all_space_def)
  have 3: "(None, mid @ ''seconds:'' @ ws' @ g @ s') \<in>
      set (ms False n (Atom (Lit (CHR ''{''))) (None, ''{'' @ mid @ ''seconds:'' @ ws' @ g @ s'))"
    unfolding in_ms_Atom by simp
  have 4: "(None, ''seconds:'' @ ws' @ g @ s') \<in>
      set (ms False n (Star (NotLit (CHR ''}''))) (None, mid @ ''seconds:'' @ ws' @ g @ s'))"
    unfolding in_ms_Star not_brace_all using mid by blast
  have 5: "(None, ws' @ g @ s') \<in>
      set (ms False n (lits ''seconds:'') (None, ''seconds:'' @ ws' @ g @ s'))"
    unfolding in_ms_lits lit_prefix_exact by simp
  have 6: "(None, g @ s') \<in> set (ms False n (Star Space) (None, ws' @ g @ s'))"
    unfolding in_ms_Star cls_match_Space using ws' by (auto simp: all_space_def)
  have "(None, s') \<in> set (ms False n (Plus Digit) (None, g @ s'))"
    unfolding in_ms_Plus cls_match_Digit using g by (auto simp: all_digits_def)
  then have 7: "(cap', s') \<in> set (ms False n (Grp (Plus Digit)) (None, g @ s'))"
    unfolding in_ms_Grp using cap by auto
  show ?L unfolding retry_delay_rx_def in_ms_Seq using 1 2 3 4 5 6 7 by blast
qed

section \<open>The head of the list after a final greedy run of digits\<close>

lemma hd_concat_map:
  "concat (map f xs) \<noteq> [] \<Longrightarrow> \<exists>x\<in>set xs. f x \<noteq> [] \<and> hd (concat (map f xs)) = hd (f x)"
proof (induction xs)
  case Nil
  then show ?case by simp
next
  case (Cons a xs)
  show ?case
  proof (cases "f a = []")
    case True
    then have "concat (map f xs) \<noteq> []" using Cons.prems by simp
    from Cons.IH[OF this] show ?thesis using True by auto
  next
    case False
    then have "hd (concat (map f (a # xs))) = hd (f a)" by simp
    then show ?thesis using False by auto
  qed
qed

lemma longest_digits_Seq:
  assumes "longest_digits ic n r"
  shows "longest_digits ic n (Seq a r)"
  unfolding longest_digits_def
proof (intro allI impI)
  fix st
  assume "ms ic n (Seq a r) st \<noteq> []"
  then have "concat (map (ms ic n r) (ms ic n a st)) \<noteq> []" by simp
  from hd_concat_map[OF this] obtain x where "ms ic n r x \<noteq> []"
    "hd (ms ic n (Seq a r) st) = hd (ms ic n r x)"
    by auto
  then show "case snd (hd (ms ic n (Seq a r) st)) of [] \<Rightarrow> True | x # xs \<Rightarrow> \<not> isdigit x"
    using assms unfolding longest_digits_def by metis
qed

lemma longest_digits_Grp: "longest_digits ic n (Grp (Plus Digit))"
  unfolding longest_digits_def
proof (intro allI impI)
  fix st :: mstate
  obtain cap s where st: "st = (cap, s)" by (cases st)
  assume ne: "ms ic n (Grp (Plus Digit)) st \<noteq> []"
  then obtain x xs where s: "s = x # xs" "isdigit x"
    using st by (cases s) (auto split: if_splits)
  have "snd (hd (ms ic n (Grp (Plus Digit)) st)) = dropWhile isdigit xs"
    using s st greedy_nonempty[of isdigit xs] hd_greedy[of isdigit xs]
    by (simp add: cls_match_Digit hd_map)
  moreover have "case dropWhile isdigit xs of [] \<Rightarrow> True | y # ys \<Rightarrow> \<not> isdigit y"
    by (induction xs) auto
  ultimately show "case snd (hd (ms ic n (Grp (Plus Digit)) st)) of [] \<Rightarrow> True
      | x # xs \<Rightarrow> \<not> isdigit x"
    by simp
qed

lemma longest_digits_retry_delay: "longest_digits False n retry_delay_rx"
  unfolding retry_delay_rx_def by (intro longest_digits_Seq longest_digits_Grp)

section \<open>Numbers\<close>


lemma round_half_even_nonneg: "0 \<le> a \<Longrightarrow> 0 < d \<Longrightarrow> 0 \<le> round_half_even a d"
  by (auto simp: round_half_even_def Let_def pos_imp_zdiv_nonneg_iff intro: add_nonneg_nonneg)

lemma py_ceil_nonneg: "0 \<le> m \<Longrightarrow> py_ceil (Finite m e) = Some k \<Longrightarrow> 0 \<le> k"
  by (auto simp: div_nonpos_pos_le0 split: if_splits)

lemma binary64_cases:
  assumes "0 \<le> a" and "0 < d"
  shows "binary64 a d = Infinity \<or> (\<exists>m e. 0 \<le> m \<and> binary64 a d = Finite m e)"
proof (cases "a = 0")
  case True
  then show ?thesis by (simp add: binary64_def)
next
  case False
  define e0 where "e0 = bitlen a - bitlen d"
  define e where "e = (if (if 0 \<le> e0 then 2 ^ nat e0 * d \<le> a else d \<le> 2 ^ nat (- e0) * a)
      then e0 else e0 - 1)"
  define q where "q = max e (- 1022) - 52"
  define m where "m = (if 0 \<le> q then round_half_even a (d * 2 ^ nat q)
      else round_half_even (a * 2 ^ nat (- q)) d)"
  have b: "binary64 a d =
      (if 0 \<le> q then (if 2 ^ 1024 \<le> m * 2 ^ nat q then Infinity else Finite m q)
       else Finite m q)"
    unfolding m_def q_def e_def e0_def binary64_def Let_def using False by simp
  have "0 \<le> m"
    unfolding m_def using assms by (simp add: round_half_even_nonneg)
  then show ?thesis
    unfolding b by (cases "0 \<le> q"; cases "(2::int) ^ 1024 \<le> m * 2 ^ nat q") simp_all
qed

lemma binary64_nonneg:
  assumes "0 \<le> a" and "0 < d" and "py_ceil (binary64 a d) = Some k"
  shows "0 \<le> k"
proof -
  from binary64_cases[OF assms(1,2)] assms(3)
  obtain m e where m: "0 \<le> m" and b: "binary64 a d = Finite m e"
    by auto
  from assms(3) have "py_ceil (Finite m e) = Some k"
    by (simp only: b)
  with m show ?thesis by (rule py_ceil_nonneg)
qed

lemma digit_val_range: "isdigit c \<Longrightarrow> 0 \<le> digit_val c \<and> digit_val c \<le> 9"
  by (auto simp: isdigit_def digit_val_def)

lemma digits_val_snoc: "digits_val (xs @ [c]) = 10 * digits_val xs + digit_val c"
  by (simp add: digits_val_def)

lemma digits_val_nonneg: "all_digits ds \<Longrightarrow> 0 \<le> digits_val ds"
proof (induction ds rule: rev_induct)
  case Nil
  then show ?case by (simp add: digits_val_def)
next
  case (snoc x xs)
  then have "0 \<le> digits_val xs" "0 \<le> digit_val x"
    using digit_val_range[of x] by (auto simp: all_digits_def)
  then show ?case by (simp add: digits_val_snoc)
qed

lemma not_digit_dot: "\<not> isdigit (CHR ''.'')"
  by (simp add: isdigit_def)

lemma py_float_number:
  assumes "number_text g"
  shows "\<exists>a k. 0 \<le> a \<and> py_float g = binary64 a (10 ^ k)"
proof -
  obtain ip where ip: "all_digits ip"
    and g: "g = ip \<or> (\<exists>fp. fp \<noteq> [] \<and> all_digits fp \<and> g = ip @ ''.'' @ fp)"
    using assms unfolding number_text_def by blast
  have tw: "takeWhile isdigit (ip @ r) = ip @ takeWhile isdigit r" for r
    using ip by (simp add: all_digits_def list_all_iff takeWhile_append2)
  have dw: "dropWhile isdigit (ip @ r) = dropWhile isdigit r" for r
    using ip by (simp add: all_digits_def list_all_iff dropWhile_append2)
  from g show ?thesis
  proof
    assume gi: "g = ip"
    have t1: "takeWhile isdigit ip = ip" and d1: "dropWhile isdigit ip = []"
      using ip by (simp_all add: all_digits_def list_all_iff)
    have "py_float g = binary64 (digits_val ip) (10 ^ 0)"
      unfolding gi by (simp add: py_float_def t1 d1)
    then show ?thesis using digits_val_nonneg[OF ip] by blast
  next
    assume "\<exists>fp. fp \<noteq> [] \<and> all_digits fp \<and> g = ip @ ''.'' @ fp"
    then obtain fp where fp: "all_digits fp" and g: "g = ip @ ''.'' @ fp" by blast
    have t2: "takeWhile isdigit (ip @ CHR ''.'' # fp) = ip"
      and d2: "dropWhile isdigit (ip @ CHR ''.'' # fp) = CHR ''.'' # fp"
      using tw[of "''.'' @ fp"] dw[of "''.'' @ fp"] by (simp_all add: not_digit_dot)
    have "py_float g = binary64 (digits_val (ip @ fp)) (10 ^ length fp)"
      unfolding g by (simp add: py_float_def t2 d2)
    moreover have "all_digits (ip @ fp)" using ip fp by (simp add: all_digits_def)
    ultimately show ?thesis using digits_val_nonneg by blast
  qed
qed

lemma retry_value_nonneg:
  assumes "number_text g" and "py_ceil (py_float g) = Some k"
  shows "0 \<le> k"
proof -
  obtain a j where "0 \<le> a" "py_float g = binary64 a (10 ^ j)"
    using py_float_number[OF assms(1)] by blast
  then show ?thesis using binary64_nonneg[of a "10 ^ j" k] assms(2) by simp
qed

lemma digits_number_text: "g \<noteq> [] \<Longrightarrow> all_digits g \<Longrightarrow> number_text g"
  unfolding number_text_def by blast

section \<open>Decimal text of an integer\<close>

lemma digit_val_char_of: "k < 10 \<Longrightarrow> digit_val (char_of (48 + k :: nat)) = int k"
proof -
  assume k: "k < 10"
  have "(of_char (char_of (48 + k)) :: int) = int (of_char (char_of (48 + k)))"
    by (simp only: of_nat_of_char)
  also have "\<dots> = int (48 + k)" using k by simp
  finally show ?thesis by (simp add: digit_val_def)
qed

lemma digits_val_str_nat: "digits_val (str_nat n) = int n"
proof (induction n rule: str_nat.induct)
  case (1 n)
  show ?case
  proof (cases "n < 10")
    case True
    then show ?thesis
      by (subst str_nat.simps) (simp add: digits_val_def digit_val_char_of)
  next
    case False
    have "digits_val (str_nat n) =
        10 * digits_val (str_nat (n div 10)) + digit_val (char_of (48 + n mod 10))"
      using False by (subst str_nat.simps) (simp add: digits_val_snoc)
    also have "\<dots> = 10 * int (n div 10) + int (n mod 10)"
      using 1[OF False] by (simp add: digit_val_char_of)
    also have "\<dots> = int n" by (simp add: zdiv_int zmod_int)
    finally show ?thesis .
  qed
qed

lemma str_int_roundtrip: "0 \<le> i \<Longrightarrow> digits_val (str_int i) = i"
  by (simp add: str_int_def digits_val_str_nat)

section \<open>Integers that a double holds exactly\<close>




section \<open>What a search returns\<close>

lemma search_from_Some:
  "search_from ic n r i s = Some m \<Longrightarrow>
     \<exists>k\<le>length s. \<exists>s' rest. ms ic n r (None, drop k s) = (group1 m, s') # rest"
proof (induction s arbitrary: i)
  case Nil
  then show ?case
    by (subst (asm) search_from.simps) (auto split: list.splits)
next
  case (Cons a s)
  show ?case
  proof (cases "ms ic n r (None, a # s)")
    case Nil
    then have "search_from ic n r (Suc i) s = Some m"
      using Cons.prems by (subst (asm) search_from.simps) simp
    from Cons.IH[OF this] obtain k s' rest where "k \<le> length s"
      "ms ic n r (None, drop k s) = (group1 m, s') # rest"
      by blast
    then have "Suc k \<le> length (a # s) \<and>
        ms ic n r (None, drop (Suc k) (a # s)) = (group1 m, s') # rest"
      by simp
    then show ?thesis by blast
  next
    case (Cons st rest)
    obtain cap s' where st: "st = (cap, s')" by (cases st)
    have "group1 m = cap"
      using Cons.prems Cons st by (subst (asm) search_from.simps) auto
    then have "ms ic n r (None, drop 0 (a # s)) = (group1 m, s') # rest"
      using Cons st by simp
    then show ?thesis by blast
  qed
qed

lemma search_retry_in_Some:
  assumes "re_search True retry_in_rx msg = Some m"
  shows "\<exists>g. group1 m = Some g \<and> retry_in_occurs msg g"
proof -
  obtain k s' rest where
    h: "ms True (length msg) retry_in_rx (None, drop k msg) = (group1 m, s') # rest"
    using search_from_Some[OF assms[unfolded re_search_def]] by blast
  then have "(group1 m, s') \<in> set (ms True (length msg) retry_in_rx (None, drop k msg))"
    by simp
  then obtain g where g: "group1 m = Some g" "retry_in_here (drop k msg) g s'"
    unfolding in_ms_retry_in by blast
  have "msg = take k msg @ drop k msg" by simp
  then have "retry_in_occurs msg g"
    unfolding retry_in_occurs_def using g(2) by blast
  then show ?thesis using g(1) by blast
qed

lemma search_retry_in_None:
  "re_search True retry_in_rx msg = None \<longleftrightarrow> \<not> (\<exists>g. retry_in_occurs msg g)"
proof
  assume n: "re_search True retry_in_rx msg = None"
  show "\<not> (\<exists>g. retry_in_occurs msg g)"
  proof
    assume "\<exists>g. retry_in_occurs msg g"
    then obtain g pre rest post where msg: "msg = pre @ rest" and h: "retry_in_here rest g post"
      unfolding retry_in_occurs_def by blast
    then have "(Some g, post) \<in> set (ms True (length msg) retry_in_rx (None, rest))"
      unfolding in_ms_retry_in by blast
    moreover have "ms True (length msg) retry_in_rx (None, rest) = []"
    proof -
      have le: "length pre \<le> length msg" by (simp add: msg)
      have dr: "drop (length pre) msg = rest" by (simp add: msg)
      from n have "\<forall>k\<le>length msg. ms True (length msg) retry_in_rx (None, drop k msg) = []"
        unfolding re_search_def search_from_None .
      from this[rule_format, OF le] show ?thesis unfolding dr .
    qed
    ultimately show False by simp
  qed
next
  assume "\<not> (\<exists>g. retry_in_occurs msg g)"
  then show "re_search True retry_in_rx msg = None"
    using search_retry_in_Some[of msg] by (cases "re_search True retry_in_rx msg") auto
qed

lemma search_retry_delay_Some:
  assumes "re_search False retry_delay_rx msg = Some m"
  shows "\<exists>g. group1 m = Some g \<and> retry_delay_occurs msg g"
proof -
  obtain k s' rest where
    h: "ms False (length msg) retry_delay_rx (None, drop k msg) = (group1 m, s') # rest"
    using search_from_Some[OF assms[unfolded re_search_def]] by blast
  then have "(group1 m, s') \<in> set (ms False (length msg) retry_delay_rx (None, drop k msg))"
    by simp
  then obtain g where g: "group1 m = Some g" "retry_delay_here (drop k msg) g s'"
    unfolding in_ms_retry_delay by blast
  have "case s' of [] \<Rightarrow> True | x # xs \<Rightarrow> \<not> isdigit x"
    using longest_digits_retry_delay[of "length msg", unfolded longest_digits_def,
        rule_format, of "(None, drop k msg)"] h
    by simp
  moreover have "msg = take k msg @ drop k msg" by simp
  ultimately have "retry_delay_occurs msg g"
    unfolding retry_delay_occurs_def using g(2) by blast
  then show ?thesis using g(1) by blast
qed

lemma search_retry_delay_None:
  "re_search False retry_delay_rx msg = None \<longleftrightarrow> \<not> (\<exists>g. retry_delay_occurs msg g)"
proof
  assume n: "re_search False retry_delay_rx msg = None"
  show "\<not> (\<exists>g. retry_delay_occurs msg g)"
  proof
    assume "\<exists>g. retry_delay_occurs msg g"
    then obtain g pre rest post where msg: "msg = pre @ rest"
      and h: "retry_delay_here rest g post"
      unfolding retry_delay_occurs_def by blast
    then have "(Some g, post) \<in> set (ms False (length msg) retry_delay_rx (None, rest))"
      unfolding in_ms_retry_delay by blast
    moreover have "ms False (length msg) retry_delay_rx (None, rest) = []"
    proof -
      have le: "length pre \<le> length msg" by (simp add: msg)
      have dr: "drop (length pre) msg = rest" by (simp add: msg)
      from n have "\<forall>k\<le>length msg. ms False (length msg) retry_delay_rx (None, drop k msg) = []"
        unfolding re_search_def search_from_None .
      from this[rule_format, OF le] show ?thesis unfolding dr .
    qed
    ultimately show False by simp
  qed
next
  assume "\<not> (\<exists>g. retry_delay_occurs msg g)"
  then show "re_search False retry_delay_rx msg = None"
    using search_retry_delay_Some[of msg] by (cases "re_search False retry_delay_rx msg") auto
qed

lemma retry_in_occurs_number: "retry_in_occurs msg g \<Longrightarrow> number_text g"
  unfolding retry_in_occurs_def retry_in_here_def by blast

lemma retry_delay_occurs_number: "retry_delay_occurs msg g \<Longrightarrow> number_text g"
  unfolding retry_delay_occurs_def retry_delay_here_def by (blast intro: digits_number_text)

lemma extract_retry_after_cases:
  "((\<exists>g. retry_in_occurs msg g) \<longrightarrow>
      (\<exists>g. retry_in_occurs msg g \<and> extract_retry_after msg = py_ceil (py_float g))) \<and>
   (\<not> (\<exists>g. retry_in_occurs msg g) \<and> (\<exists>g. retry_delay_occurs msg g) \<longrightarrow>
      (\<exists>g. retry_delay_occurs msg g \<and> extract_retry_after msg = py_ceil (py_float g))) \<and>
   (\<not> (\<exists>g. retry_in_occurs msg g) \<and> \<not> (\<exists>g. retry_delay_occurs msg g) \<longrightarrow>
      extract_retry_after msg = None)"
proof (cases "re_search True retry_in_rx msg")
  case None
  then have no: "\<not> (\<exists>g. retry_in_occurs msg g)" by (simp add: search_retry_in_None)
  show ?thesis
  proof (cases "re_search False retry_delay_rx msg")
    case None
    then have "\<not> (\<exists>g. retry_delay_occurs msg g)" by (simp add: search_retry_delay_None)
    moreover have "extract_retry_after msg = None"
      using None \<open>re_search True retry_in_rx msg = None\<close> by (simp add: extract_retry_after_def)
    ultimately show ?thesis using no by blast
  next
    case (Some m)
    then obtain g where g: "group1 m = Some g" "retry_delay_occurs msg g"
      using search_retry_delay_Some by blast
    have "extract_retry_after msg = py_ceil (py_float g)"
      using Some g(1) \<open>re_search True retry_in_rx msg = None\<close>
      by (simp add: extract_retry_after_def)
    then show ?thesis using no g(2) by blast
  qed
next
  case (Some m)
  then obtain g where g: "group1 m = Some g" "retry_in_occurs msg g"
    using search_retry_in_Some by blast
  have "extract_retry_after msg = py_ceil (py_float g)"
    using Some g(1) by (simp add: extract_retry_after_def)
  then show ?thesis using g(2) by blast
qed

lemma extract_retry_after_nonneg:
  assumes "extract_retry_after msg = Some k"
  shows "0 \<le> k"
proof -
  from extract_retry_after_cases[of msg] assms
  obtain g where "number_text g" "py_ceil (py_float g) = Some k"
    by (metis option.distinct(1) retry_in_occurs_number retry_delay_occurs_number)
  then show ?thesis by (rule retry_value_nonneg)
qed

section \<open>Substrings\<close>

lemma startswith_iff: "startswith s p \<longleftrightarrow> (\<exists>b. s = p @ b)"
  unfolding startswith_def by (metis append_eq_conv_conj append_take_drop_id)

lemma contains_iff: "contains s p \<longleftrightarrow> (\<exists>a b. s = a @ p @ b)"
proof (induction s)
  case Nil
  then show ?case by simp
next
  case (Cons c s)
  have "(\<exists>a b. c # s = a @ p @ b) \<longleftrightarrow> (\<exists>b. c # s = p @ b) \<or> (\<exists>a b. s = a @ p @ b)"
    (is "?L \<longleftrightarrow> ?R")
  proof
    assume ?L
    then obtain a b where ab: "c # s = a @ p @ b" by blast
    show ?R
    proof (cases a)
      case Nil
      then show ?thesis using ab by auto
    next
      case (Cons x a')
      then have "s = a' @ p @ b" using ab by simp
      then show ?thesis by blast
    qed
  next
    assume ?R
    then show ?L
    proof
      assume "\<exists>b. c # s = p @ b"
      then obtain b where "c # s = [] @ p @ b" by auto
      then show ?L by blast
    next
      assume "\<exists>a b. s = a @ p @ b"
      then obtain a b where "c # s = (c # a) @ p @ b" by auto
      then show ?L by blast
    qed
  qed
  then show ?case using Cons.IH by (simp add: startswith_iff)
qed

lemma lower_contains_iff:
  "contains (lower s) p \<longleftrightarrow> (\<exists>a w b. s = a @ w @ b \<and> lower w = p)"
proof
  assume "contains (lower s) p"
  then obtain a' b' where h: "map lower_char s = a' @ p @ b'"
    unfolding contains_iff lower_def by blast
  from h have "\<exists>us vs. s = us @ vs \<and> a' = map lower_char us \<and> p @ b' = map lower_char vs"
    by (simp only: map_eq_append_conv)
  then obtain a r where 1: "s = a @ r" "p @ b' = map lower_char r"
    by blast
  from 1(2) have "\<exists>us vs. r = us @ vs \<and> p = map lower_char us \<and> b' = map lower_char vs"
    by (simp only: append_eq_map_conv)
  then obtain w b where 2: "r = w @ b" "p = map lower_char w"
    by blast
  show "\<exists>a w b. s = a @ w @ b \<and> lower w = p"
    using 1(1) 2 unfolding lower_def by blast
next
  assume "\<exists>a w b. s = a @ w @ b \<and> lower w = p"
  then obtain a w b where s: "s = a @ w @ b" and w: "lower w = p" by blast
  have "lower s = lower a @ lower w @ lower b" unfolding s by (simp add: lower_def)
  then have "lower s = lower a @ p @ lower b" unfolding w .
  then show "contains (lower s) p" unfolding contains_iff by blast
qed

section \<open>Detection of a rate limit\<close>

text \<open>
  Claim C6. The classifier reports a rate limit exactly when the message has a substring
  whose lower-case form is \<^verbatim>\<open>quota\<close>, or the substring \<^verbatim>\<open>429\<close>; when it reports none the
  retry delay is absent. For the message \<^verbatim>\<open>Internal server fault\<close> it returns false with
  the delay absent.
\<close>

theorem rate_limit_detection:
  "(fst (classify msg) \<longleftrightarrow>
      (\<exists>a w b. msg = a @ w @ b \<and> lower w = ''quota'') \<or> (\<exists>a b. msg = a @ ''429'' @ b)) \<and>
   (\<not> fst (classify msg) \<longrightarrow> snd (classify msg) = None) \<and>
   classify ''Internal server fault'' = (False, None)"
proof (intro conjI)
  show "fst (classify msg) \<longleftrightarrow>
      (\<exists>a w b. msg = a @ w @ b \<and> lower w = ''quota'') \<or> (\<exists>a b. msg = a @ ''429'' @ b)"
  proof -
    have 1: "contains (lower msg) ''quota'' \<longleftrightarrow>
        (\<exists>a w b. msg = a @ w @ b \<and> lower w = ''quota'')"
      by (rule lower_contains_iff)
    have 2: "contains msg ''429'' \<longleftrightarrow> (\<exists>a b. msg = a @ ''429'' @ b)"
      by (rule contains_iff)
    have "fst (classify msg) \<longleftrightarrow> contains (lower msg) ''quota'' \<or> contains msg ''429''"
      by (simp add: classify_def is_rate_limited_def)
    then show ?thesis unfolding 1 2 .
  qed
  show "\<not> fst (classify msg) \<longrightarrow> snd (classify msg) = None"
    by (simp add: classify_def)
  show "classify ''Internal server fault'' = (False, None)"
    by code_simp
qed

theorem rate_limit_detection_witness:
  "lower ''Quota'' = ''quota'' \<and> fst (classify ''Daily Quota exceeded'') \<and>
   \<not> fst (classify ''Internal server fault'') \<and>
   snd (classify ''Internal server fault'') = None"
proof -
  have l: "lower ''Quota'' = ''quota''"
    by code_simp
  have d: "''Daily Quota exceeded'' = ''Daily '' @ ''Quota'' @ '' exceeded''"
    by simp
  have 1: "fst (classify ''Daily Quota exceeded'')"
    using rate_limit_detection[of "''Daily Quota exceeded''", THEN conjunct1] l d by blast
  have n: "\<not> fst (classify ''Internal server fault'')"
    by code_simp
  have 2: "snd (classify ''Internal server fault'') = None"
    using rate_limit_detection[of "''Internal server fault''", THEN conjunct2, THEN conjunct1] n
    by blast
  show ?thesis using l 1 n 2 by blast
qed

section \<open>The response to a rate limit\<close>

lemma quota_env_enabled: "\<not> ai_disabled quota_env"
  by (simp add: ai_disabled_def quota_env_def lower_def)

text \<open>
  Claim C7. Let a well-formed request end in an error dict whose message \<open>err_msg\<close> (the
  \<^verbatim>\<open>str\<close> of the value under \<^verbatim>\<open>error\<close>) is classified as a rate limit. If the delay \<open>n\<close>
  was extracted, the response has status 429, the header \<^verbatim>\<open>Retry-After\<close> whose value is
  the decimal text of \<open>n\<close> (a text that reads back as \<open>n\<close>, which is not negative), and a
  body with the field \<^verbatim>\<open>error\<close> and the field \<^verbatim>\<open>retry_after\<close> equal to \<open>n\<close>. If no delay
  was extracted, the response has status 429 and the body with the field \<^verbatim>\<open>error\<close>
  alone, and the handler sets no header. The table is left as it was.
\<close>

theorem rate_limited_response:
  assumes "is_json req" and "body req = Some (JObj kvs)"
    and "truthy (dict_get kvs ''goal'' JNull)"
    and "generate_plan ev (dict_get kvs ''goal'' JNull) = Inr (JObj pkvs)"
    and "''error'' \<in> fst ` set pkvs"
    and "err_msg = py_str (py_repr ev) (dict_get pkvs ''error'' (JStr []))"
  shows "(\<forall>n. classify err_msg = (True, Some n) \<longrightarrow>
            create_plan_endpoint ev d req =
              (Response 429 [(''Retry-After'', str_int n)]
                 (JObj [(''error'', JStr err_msg), (''retry_after'', JInt n)]), d) \<and>
            0 \<le> n \<and> digits_val (str_int n) = n) \<and>
         (classify err_msg = (True, None) \<longrightarrow>
            create_plan_endpoint ev d req =
              (Response 429 [] (JObj [(''error'', JStr err_msg)]), d))"
proof -
  have h: "create_plan_endpoint ev d req = (error_response err_msg, d)"
    using handler_on_error_dict[OF assms(1-5)] assms(6) by simp
  have a: "create_plan_endpoint ev d req =
        (Response 429 [(''Retry-After'', str_int n)]
           (JObj [(''error'', JStr err_msg), (''retry_after'', JInt n)]), d) \<and>
      0 \<le> n \<and> digits_val (str_int n) = n"
    if c: "classify err_msg = (True, Some n)" for n
  proof -
    have r: "is_rate_limited err_msg" and e: "extract_retry_after err_msg = Some n"
      using c by (auto simp: classify_def split: if_splits)
    have n: "0 \<le> n" using e by (rule extract_retry_after_nonneg)
    show ?thesis
      using h r e n by (simp add: error_response_def str_int_roundtrip)
  qed
  have b: "create_plan_endpoint ev d req =
        (Response 429 [] (JObj [(''error'', JStr err_msg)]), d)"
    if c: "classify err_msg = (True, None)"
  proof -
    have r: "is_rate_limited err_msg" and e: "extract_retry_after err_msg = None"
      using c by (auto simp: classify_def split: if_splits)
    show ?thesis using h r e by (simp add: error_response_def)
  qed
  show ?thesis using a b by blast
qed

theorem rate_limited_response_witness:
  "is_json goal_request \<and> body goal_request = Some (JObj [(''goal'', JStr ''ship it'')]) \<and>
   truthy (dict_get [(''goal'', JStr ''ship it'')] ''goal'' JNull) \<and>
   classify ''429 quota exceeded. Please retry in 12.4s'' = (True, Some 13) \<and>
   create_plan_endpoint failing_env [] goal_request =
     (Response 429 [(''Retry-After'', ''13'')]
        (JObj [(''error'', JStr ''429 quota exceeded. Please retry in 12.4s''),
               (''retry_after'', JInt 13)]), []) \<and>
   classify ''Quota exceeded for this project'' = (True, None) \<and>
   create_plan_endpoint quota_env [] goal_request =
     (Response 429 [] (JObj [(''error'', JStr ''Quota exceeded for this project'')]), [])"
proof -
  have t: "truthy (dict_get [(''goal'', JStr ''ship it'')] ''goal'' JNull)"
    by (simp add: dict_get_def)
  have g1: "generate_plan failing_env (dict_get [(''goal'', JStr ''ship it'')] ''goal'' JNull) =
      Inr (JObj [(''error'', JStr ''429 quota exceeded. Please retry in 12.4s'')])"
    by (simp add: generate_plan_def failing_env_enabled) (simp add: failing_env_def)
  have g2: "generate_plan quota_env (dict_get [(''goal'', JStr ''ship it'')] ''goal'' JNull) =
      Inr (JObj [(''error'', JStr ''Quota exceeded for this project'')])"
    by (simp add: generate_plan_def quota_env_enabled) (simp add: quota_env_def)
  have k1: "''error'' \<in> fst ` set [(''error'', JStr ''429 quota exceeded. Please retry in 12.4s'')]"
    by simp
  have k2: "''error'' \<in> fst ` set [(''error'', JStr ''Quota exceeded for this project'')]"
    by simp
  have m1: "''429 quota exceeded. Please retry in 12.4s'' =
      py_str (py_repr failing_env)
        (dict_get [(''error'', JStr ''429 quota exceeded. Please retry in 12.4s'')] ''error''
           (JStr []))"
    by (simp add: dict_get_def)
  have m2: "''Quota exceeded for this project'' =
      py_str (py_repr quota_env)
        (dict_get [(''error'', JStr ''Quota exceeded for this project'')] ''error'' (JStr []))"
    by (simp add: dict_get_def)
  have c1: "classify ''429 quota exceeded. Please retry in 12.4s'' = (True, Some 13)"
    by code_simp
  have c2: "classify ''Quota exceeded for this project'' = (True, None)"
    by code_simp
  have s: "str_int 13 = ''13''"
    by code_simp
  have i: "is_json goal_request"
    and b: "body goal_request = Some (JObj [(''goal'', JStr ''ship it'')])"
    using goal_request_ok by simp_all
  from rate_limited_response[OF i b t g1 k1 m1, of "[]", THEN conjunct1, rule_format, OF c1]
  have r1: "create_plan_endpoint failing_env [] goal_request =
     (Response 429 [(''Retry-After'', ''13'')]
        (JObj [(''error'', JStr ''429 quota exceeded. Please retry in 12.4s''),
               (''retry_after'', JInt 13)]), [])"
    unfolding s by blast
  from rate_limited_response[OF i b t g2 k2 m2, of "[]", THEN conjunct2, rule_format, OF c2]
  have r2: "create_plan_endpoint quota_env [] goal_request =
     (Response 429 [] (JObj [(''error'', JStr ''Quota exceeded for this project'')]), [])" .
  show ?thesis using i b t c1 r1 c2 r2 by blast
qed

section \<open>The extraction of the retry delay\<close>






end
